theory Spec2Isabelle
  imports
    Main
    "HOL-Library.Char_ord"
    "HOL-Library.List_Lexorder"
    "HOL-Library.Log_Nat"
begin

section \<open>Python strings and integers\<close>

text \<open>
  A Python \<open>str\<close> is modelled as a \<open>string\<close> (a list of characters), compared
  lexicographically by character code, as Python compares strings. The identifiers and
  artifact files of this program are ASCII text, where one character is one byte of the
  UTF-8 encoding, so \<open>len(line.encode('utf-8'))\<close> is the length of the list. A file
  is the list of its bytes and is taken to be valid UTF-8: the line ends \<open>\n\<close> and
  \<open>\r\<close> are single bytes that occur in no other character, so lines and their byte
  lengths are the same over bytes as over decoded text.
\<close>

definition LF :: char where
  "LF = CHR 0x0A"

definition CR :: char where
  "CR = CHR 0x0D"

text \<open>\<open>str(n)\<close> for a non-negative Python integer: its decimal digits.\<close>

definition digit_char :: "nat \<Rightarrow> char" where
  "digit_char d = char_of (48 + d)"

fun str_nat :: "nat \<Rightarrow> string" where
  "str_nat n = (if n < 10 then [digit_char n] else str_nat (n div 10) @ [digit_char (n mod 10)])"

declare str_nat.simps [simp del]

text \<open>
  \<open>s.zfill(width)\<close>: zeros are added on the left up to the width; a leading sign stays
  in front of the zeros.
\<close>

definition zfill :: "nat \<Rightarrow> string \<Rightarrow> string" where
  "zfill width s =
     (case s of
        c # cs \<Rightarrow>
          if c = CHR ''+'' \<or> c = CHR ''-''
          then c # replicate (width - length s) (CHR ''0'') @ cs
          else replicate (width - length s) (CHR ''0'') @ s
      | [] \<Rightarrow> replicate width (CHR ''0''))"

text \<open>Truth value of an optional string argument: \<open>None\<close> and \<open>''\<close> are false.\<close>

definition truthy :: "string option \<Rightarrow> bool" where
  "truthy s = (case s of None \<Rightarrow> False | Some t \<Rightarrow> t \<noteq> [])"

text \<open>
  \<open>s.isdigit()\<close> and \<open>s.strip()\<close> on ASCII text: a non-empty string of the digits
  \<open>0\<close> to \<open>9\<close>; the string without its leading and trailing whitespace. (Python
  also counts the digits and spaces of other scripts; the requests modelled here carry
  none at the ends of their fields.)
\<close>

definition is_digit_char :: "char \<Rightarrow> bool" where
  "is_digit_char c = (CHR ''0'' \<le> c \<and> c \<le> CHR ''9'')"

definition isdigit :: "string \<Rightarrow> bool" where
  "isdigit s = (s \<noteq> [] \<and> list_all is_digit_char s)"

definition is_space_char :: "char \<Rightarrow> bool" where
  "is_space_char c =
     (c = CHR '' '' \<or> (CHR 0x09 \<le> c \<and> c \<le> CHR 0x0D) \<or> (CHR 0x1C \<le> c \<and> c \<le> CHR 0x1F))"

definition strip :: "string \<Rightarrow> string" where
  "strip s = rev (dropWhile is_space_char (rev (dropWhile is_space_char s)))"

section \<open>The segment table and its query\<close>

text \<open>
  A row of the table \<open>phone_location\<close> (all columns \<open>TEXT\<close> but the operator).
\<close>

record phone_location =
  loc_prefix :: string
  loc_suffix :: string
  loc_province :: string
  loc_city :: string
  loc_operator :: int

text \<open>
  \<open>DatabaseManager.query_phone_locations\<close>: the rows whose prefix, province and city are
  the given ones and, when a non-empty operator list is given, whose operator is in it.
\<close>

definition query_phone_locations ::
  "phone_location list \<Rightarrow> string \<Rightarrow> string \<Rightarrow> string \<Rightarrow> int list option \<Rightarrow> phone_location list"
where
  "query_phone_locations db prefix province city operators =
     filter (\<lambda>row.
        loc_prefix row = prefix \<and> loc_province row = province \<and> loc_city row = city \<and>
        (case operators of
           None \<Rightarrow> True
         | Some ops \<Rightarrow> if ops \<noteq> [] \<and> length ops > 0 then loc_operator row \<in> set ops else True))
       db"

section \<open>NumberGenerator\<close>

text \<open>
  \<open>NumberGenerator._generate_numbers_for_location\<close>: the identifiers of one segment.
\<close>

definition generate_numbers_for_location ::
  "string \<Rightarrow> string \<Rightarrow> string option \<Rightarrow> string option \<Rightarrow> string list"
where
  "generate_numbers_for_location prefix suffix suffix_4 suffix_3 =
     (if truthy suffix_4 then [prefix @ suffix @ the suffix_4]
      else if truthy suffix_3 then
        map (\<lambda>first_digit. prefix @ suffix @ [first_digit] @ the suffix_3) ''0123456789''
      else
        map (\<lambda>last_four. prefix @ suffix @ zfill 4 (str_nat last_four)) [0..<10000])"

text \<open>
  \<open>NumberGenerator.generate_numbers\<close>, over the table \<open>db\<close>. \<open>list(set(xs))\<close> keeps one
  copy of each element in an order Python does not fix; the sort that follows gives the
  same list for every such order, so \<open>remdups\<close> stands for it.
\<close>

definition generate_numbers ::
  "phone_location list \<Rightarrow> string \<Rightarrow> string option \<Rightarrow> string option \<Rightarrow> string \<Rightarrow> string
     \<Rightarrow> int list option \<Rightarrow> string list"
where
  "generate_numbers db prefix suffix suffix_3 province city operators =
     (let locations = query_phone_locations db prefix province city operators in
      if locations = [] then []
      else
        let all_numbers =
              concat (map (\<lambda>location.
                 generate_numbers_for_location prefix (loc_suffix location) suffix suffix_3)
                 locations)
        in sort (remdups all_numbers))"

section \<open>Floating-point sizes\<close>

text \<open>
  The size formatter starts from a Python \<open>int\<close> and, from its first division on,
  works with a binary64 \<open>float\<close>. A float is modelled by the rational number it holds.
  \<open>round53\<close> is the float nearest to an integer (53 significant bits, ties to the even
  significand); an integer below \<open>2^53\<close> in magnitude is its own nearest float.
\<close>

datatype error = OverflowError | PermissionError

datatype number = PyInt int | PyFloat rat

definition round53 :: "int \<Rightarrow> int" where
  "round53 n =
     (let a = \<bar>n\<bar>; e = bitlen a - 53 in
      if e \<le> 0 then n
      else
        let d = 2 ^ nat e; q = a div d; r = a mod d;
            q' = (if 2 * r > d \<or> (2 * r = d \<and> odd q) then q + 1 else q)
        in sgn n * (q' * d))"

text \<open>
  \<open>float(n)\<close>, as \<open>int.__format__\<close> converts an integer for the presentation type
  \<open>f\<close>: \<open>OverflowError\<close> when the nearest float would be \<open>2^1024\<close> or more.
\<close>

definition float_of_int :: "int \<Rightarrow> error + rat" where
  "float_of_int n =
     (if \<bar>round53 n\<bar> \<ge> 2 ^ 1024 then Inl OverflowError else Inr (of_int (round53 n)))"

text \<open>
  \<open>size / 1024\<close>. For an \<open>int\<close> it is the correctly rounded quotient (a division by a
  power of two: the nearest float of the integer, scaled), \<open>OverflowError\<close> when that
  is \<open>2^1024\<close> or more. For a \<open>float\<close> of at least 1024, as it is here, the
  division by a power of two is exact.
\<close>

fun truediv_1024 :: "number \<Rightarrow> error + number" where
  "truediv_1024 (PyInt n) =
     (if \<bar>round53 n\<bar> \<ge> 2 ^ 1034 then Inl OverflowError
      else Inr (PyFloat (of_int (round53 n) / 1024)))"
| "truediv_1024 (PyFloat x) = Inr (PyFloat (x / 1024))"

fun less_1024 :: "number \<Rightarrow> bool" where
  "less_1024 (PyInt n) = (n < 1024)"
| "less_1024 (PyFloat x) = (x < 1024)"

text \<open>
  \<open>f"{x:.2f}"\<close>: the decimal with two fractional digits nearest to the exact value of
  the float, ties to the even last digit; the sign first.
\<close>

definition round_half_even :: "rat \<Rightarrow> int" where
  "round_half_even x =
     (let f = \<lfloor>x\<rfloor>; r = x - of_int f in
      if r > 1 / 2 \<or> (r = 1 / 2 \<and> odd f) then f + 1 else f)"

definition format_2f :: "rat \<Rightarrow> string" where
  "format_2f x =
     (let h = round_half_even (\<bar>x\<bar> * 100) in
      (if x < 0 then ''-'' else []) @
      str_nat (nat (h div 100)) @ ''.'' @ zfill 2 (str_nat (nat (h mod 100))))"

fun format_number_2f :: "number \<Rightarrow> error + string" where
  "format_number_2f (PyInt n) =
     (case float_of_int n of Inl e \<Rightarrow> Inl e | Inr x \<Rightarrow> Inr (format_2f x))"
| "format_number_2f (PyFloat x) = Inr (format_2f x)"

text \<open>
  \<open>NumberGenerator._format_file_size\<close>: the loop over the units, then the fall-through
  to \<open>TB\<close>.
\<close>

fun format_units :: "string list \<Rightarrow> number \<Rightarrow> error + string" where
  "format_units [] sz =
     (case format_number_2f sz of Inl e \<Rightarrow> Inl e | Inr s \<Rightarrow> Inr (s @ '' TB''))"
| "format_units (unit # units) sz =
     (if less_1024 sz then
        (case format_number_2f sz of Inl e \<Rightarrow> Inl e | Inr s \<Rightarrow> Inr (s @ '' '' @ unit))
      else
        (case truediv_1024 sz of Inl e \<Rightarrow> Inl e | Inr sz' \<Rightarrow> format_units units sz'))"

definition format_file_size :: "int \<Rightarrow> error + string" where
  "format_file_size sz = format_units [''B'', ''KB'', ''MB'', ''GB''] (PyInt sz)"

text \<open>
  The size formatter in the words of its specification: divide by 1024 through the
  units, stop at the first unit where the scaled value is below 1024, or at \<open>TB\<close>, and
  render with two decimal places; the arithmetic is exact.
\<close>

definition spec_format :: "int \<Rightarrow> string" where
  "spec_format n =
     (if of_int n < (1024::rat) then format_2f (of_int n) @ '' B''
      else if of_int n / 1024 < (1024::rat) then format_2f (of_int n / 1024) @ '' KB''
      else if of_int n / 1024 ^ 2 < (1024::rat) then format_2f (of_int n / 1024 ^ 2) @ '' MB''
      else if of_int n / 1024 ^ 3 < (1024::rat) then format_2f (of_int n / 1024 ^ 3) @ '' GB''
      else format_2f (of_int n / 1024 ^ 4) @ '' TB'')"

section \<open>The download directory\<close>

text \<open>
  The download directory is a map from file names to files. A file holds its bytes and
  whether the process may open it for reading. Creating and writing a file in the
  directory succeeds; text is written as it is given (the line separator of the
  platform is \<open>\n\<close>).
\<close>

record stored_file =
  content :: string
  readable :: bool

type_synonym filesystem = "string \<rightharpoonup> stored_file"

definition exists :: "filesystem \<Rightarrow> string \<Rightarrow> bool" where
  "exists fs filename = (fs filename \<noteq> None)"

definition getsize :: "filesystem \<Rightarrow> string \<Rightarrow> int" where
  "getsize fs filename = int (length (content (the (fs filename))))"

definition write_file :: "filesystem \<Rightarrow> string \<Rightarrow> string \<Rightarrow> filesystem" where
  "write_file fs filename text = fs(filename \<mapsto> \<lparr>content = text, readable = True\<rparr>)"

text \<open>
  \<open>NumberGenerator.generate_to_file\<close>: the written directory and the returned triple
  (file name, size in bytes, size as text), or the error raised after the write.
\<close>

definition generate_to_file ::
  "filesystem \<Rightarrow> string list \<Rightarrow> string \<Rightarrow> (error + string \<times> int \<times> string) \<times> filesystem"
where
  "generate_to_file fs numbers filename =
     (let fs' = write_file fs filename (concat (map (\<lambda>number. number @ [LF]) numbers));
          file_size = getsize fs' filename
      in case format_file_size file_size of
           Inl e \<Rightarrow> (Inl e, fs')
         | Inr file_size_str \<Rightarrow> (Inr (filename, file_size, file_size_str), fs'))"

section \<open>Splitting a file for download\<close>

text \<open>
  \<open>f.readline()\<close> on a text stream opened with the default newline handling: the next
  line of the remaining bytes and the bytes after it. A line ends at \<open>\n\<close>, \<open>\r\n\<close>
  or \<open>\r\<close>, each given to the program as \<open>\n\<close>; the last line may have no end; at the
  end of the file the line is empty.
\<close>

fun readline :: "string \<Rightarrow> string \<times> string" where
  "readline [] = ([], [])"
| "readline (c # cs) =
     (if c = LF then ([LF], cs)
      else if c = CR then ([LF], case cs of [] \<Rightarrow> [] | d # ds \<Rightarrow> if d = LF then ds else cs)
      else let (line, rest) = readline cs in (c # line, rest))"

text \<open>
  The batch loop \<open>for _ in range(500000)\<close>, with \<open>n\<close> iterations left: the lines
  collected and the rest of the stream.
\<close>

fun read_batch :: "nat \<Rightarrow> int \<Rightarrow> string list \<Rightarrow> int \<Rightarrow> string \<Rightarrow> string list \<times> string" where
  "read_batch n max_size lines current_size f =
     (if n = 0 then (lines, f)
      else
        let (line, f') = readline f in
        if line = [] then (lines, f')
        else
          let lines' = lines @ [line];
              current_size' = current_size + int (length line)
          in if current_size' \<ge> max_size then (lines', f')
             else read_batch (n - 1) max_size lines' current_size' f')"

declare read_batch.simps [simp del]

record file_info =
  info_name :: string
  info_size :: string
  info_url :: string

definition part_filename :: "nat \<Rightarrow> string \<Rightarrow> string" where
  "part_filename part_number filename = ''part_'' @ str_nat part_number @ ''_'' @ filename"

lemma readline_cases:
  obtains "f = []" "readline f = ([], [])"
  | cs where "f = LF # cs" "readline f = ([LF], cs)"
  | cs where "f = CR # LF # cs" "readline f = ([LF], cs)"
  | cs where "f = CR # cs" "cs = [] \<or> hd cs \<noteq> LF" "readline f = ([LF], cs)"
  | c cs where "f = c # cs" "c \<noteq> LF" "c \<noteq> CR"
      "readline f = (c # fst (readline cs), snd (readline cs))"
proof (cases f)
  case Nil
  then show ?thesis using that(1) by simp
next
  case (Cons c cs)
  show ?thesis
  proof (cases "c = LF")
    case True
    with Cons show ?thesis using that(2) by simp
  next
    case nlf: False
    show ?thesis
    proof (cases "c = CR")
      case True
      show ?thesis
      proof (cases cs)
        case Nil
        with True nlf Cons show ?thesis using that(4)[of cs] by simp
      next
        case (Cons d ds)
        with True nlf \<open>f = c # cs\<close> show ?thesis
          using that(3)[of ds] that(4)[of cs] by (cases "d = LF") simp_all
      qed
    next
      case False
      with nlf Cons show ?thesis
        using that(5)[of c cs] by (simp add: case_prod_beta)
    qed
  qed
qed

lemma length_readline: "length (snd (readline f)) \<le> length f"
proof (induction f rule: length_induct)
  case (1 f)
  show ?case
  proof (cases f rule: readline_cases)
    case (5 c cs)
    with 1 have "length (snd (readline cs)) \<le> length cs" by simp
    with 5 show ?thesis by simp
  qed simp_all
qed

lemma length_readline_less: "fst (readline f) \<noteq> [] \<Longrightarrow> length (snd (readline f)) < length f"
  using length_readline [of "tl f"] by (cases f rule: readline_cases) auto

lemma length_read_batch:
  "read_batch n max_size lines current_size f = (lines', f') \<Longrightarrow>
   length f' \<le> length f \<and> (lines' \<noteq> lines \<longrightarrow> length f' < length f)"
proof (induction n max_size lines current_size f arbitrary: lines' f' rule: read_batch.induct)
  case (1 n max_size lines current_size f)
  obtain line g where rl: "readline f = (line, g)" by (cases "readline f")
  have le: "length g \<le> length f" using length_readline[of f] rl by simp
  show ?case
  proof (cases "n = 0 \<or> line = []")
    case True
    with "1.prems" rl le show ?thesis
      by (subst (asm) read_batch.simps) (auto split: if_splits)
  next
    case False
    then have lt: "length g < length f" using length_readline_less[of f] rl by simp
    show ?thesis
    proof (cases "current_size + int (length line) \<ge> max_size")
      case True
      with False "1.prems" rl lt show ?thesis
        by (subst (asm) read_batch.simps) auto
    next
      case False2: False
      with False "1.prems" rl
      have "read_batch (n - 1) max_size (lines @ [line]) (current_size + int (length line)) g
            = (lines', f')"
        by (subst (asm) read_batch.simps) auto
      moreover from False have "n \<noteq> 0" "line \<noteq> []" by auto
      ultimately have "length f' \<le> length g"
        using "1.IH"[OF _ refl rl[symmetric] _ refl refl False2] by blast
      with lt show ?thesis by auto
    qed
  qed
qed

text \<open>
  The loop \<open>while True\<close> of the splitting branch, from the part number, the list of
  part descriptions and the directory reached so far: the list returned (or the error
  raised) and the directory with the part files written.
\<close>

function split_loop ::
  "string \<Rightarrow> int \<Rightarrow> string \<Rightarrow> nat \<Rightarrow> file_info list \<Rightarrow> filesystem
     \<Rightarrow> (error + file_info list) \<times> filesystem"
where
  "split_loop filename max_size f part_number part_files fs =
     (let (lines, f') = read_batch 500000 max_size [] 0 f in
      if lines = [] then (Inr part_files, fs)
      else
        let part_name = part_filename part_number filename;
            fs' = write_file fs part_name (concat lines);
            part_size = getsize fs' part_name
        in case format_file_size part_size of
             Inl e \<Rightarrow> (Inl e, fs')
           | Inr part_size_str \<Rightarrow>
               split_loop filename max_size f' (part_number + 1)
                 (part_files @
                    [\<lparr>info_name = part_name, info_size = part_size_str,
                      info_url = ''/download/'' @ part_name\<rparr>])
                 fs')"
  by pat_completeness auto
termination
proof (relation "measure (\<lambda>(filename, max_size, f, part_number, part_files, fs). length f)")
  show "wf (measure (\<lambda>(filename, max_size, f, part_number, part_files, fs). length f))"
    by simp
next
  fix filename :: string and max_size :: int and f :: string and part_number :: nat
    and part_files :: "file_info list" and fs :: filesystem
    and x :: "string list \<times> string" and lines f' xa xb xc xd
  assume a: "x = read_batch 500000 max_size [] 0 f" and b: "(lines, f') = x"
    and c: "lines \<noteq> []"
  have "read_batch 500000 max_size [] 0 f = (lines, f')"
    unfolding a [symmetric] by (rule b [symmetric])
  from length_read_batch [OF this] c have "length f' < length f"
    by blast
  then show "((filename, max_size, f', part_number + 1,
               part_files @ [\<lparr>info_name = xa, info_size = xd, info_url = ''/download/'' @ xa\<rparr>], xb),
              filename, max_size, f, part_number, part_files, fs)
             \<in> measure (\<lambda>(filename, max_size, f, part_number, part_files, fs). length f)"
    by simp
qed

declare split_loop.simps [simp del]

text \<open>
  \<open>FileManager.split_file_for_download\<close>. The early return for a missing file, the
  pass-through for a file within the limit, and the splitting branch, which opens the
  file for reading.
\<close>

definition split_file_for_download ::
  "filesystem \<Rightarrow> string \<Rightarrow> int \<Rightarrow> (error + file_info list) \<times> filesystem"
where
  "split_file_for_download fs filename max_size_mb =
     (if \<not> exists fs filename then (Inr [], fs)
      else
        let file_size = getsize fs filename in
        if file_size \<le> max_size_mb * 1024 * 1024 then
          (case format_file_size file_size of
             Inl e \<Rightarrow> (Inl e, fs)
           | Inr file_size_str \<Rightarrow>
               (Inr [\<lparr>info_name = filename, info_size = file_size_str,
                      info_url = ''/download/'' @ filename\<rparr>], fs))
        else
          let max_size = max_size_mb * 1024 * 1024 in
          if \<not> readable (the (fs filename)) then (Inl PermissionError, fs)
          else split_loop filename max_size (content (the (fs filename))) 1 [] fs)"

section \<open>The generation request\<close>

text \<open>
  The JSON body of a request to \<open>/api/generate\<close>, with its text fields as strings
  (a missing key is the empty string), the two optional suffixes and the optional
  operator list (\<open>None\<close> for a missing or \<open>null\<close> value).
\<close>

record request =
  req_prefix :: string
  req_suffix_4 :: "string option"
  req_suffix_3 :: "string option"
  req_province :: string
  req_city :: string
  req_operators :: "int list option"

text \<open>The messages of \<open>validate_input\<close>, in the order of its checks.\<close>

datatype message =
  No_message
  | Prefix_missing
  | Prefix_not_three_digits
  | Province_missing
  | City_missing
  | Both_suffixes
  | Suffix_4_not_four_digits
  | Suffix_3_not_three_digits
  | Operator_invalid int

definition validate_input :: "request \<Rightarrow> bool \<times> message" where
  "validate_input data =
     (let prefix = strip (req_prefix data) in
      if prefix = [] then (False, Prefix_missing)
      else if length prefix \<noteq> 3 \<or> \<not> isdigit prefix then (False, Prefix_not_three_digits)
      else
        let province = strip (req_province data) in
        if province = [] then (False, Province_missing)
        else
          let city = strip (req_city data) in
          if city = [] then (False, City_missing)
          else
            let suffix_4 = (if truthy (req_suffix_4 data) then strip (the (req_suffix_4 data)) else []);
                suffix_3 = (if truthy (req_suffix_3 data) then strip (the (req_suffix_3 data)) else [])
            in
            if suffix_4 \<noteq> [] \<and> suffix_3 \<noteq> [] then (False, Both_suffixes)
            else if suffix_4 \<noteq> [] \<and> (length suffix_4 \<noteq> 4 \<or> \<not> isdigit suffix_4)
              then (False, Suffix_4_not_four_digits)
            else if suffix_3 \<noteq> [] \<and> (length suffix_3 \<noteq> 3 \<or> \<not> isdigit suffix_3)
              then (False, Suffix_3_not_three_digits)
            else
              (case find (\<lambda>op. op \<notin> set [1, 2, 3, 4, 5])
                      (case req_operators data of None \<Rightarrow> [] | Some ops \<Rightarrow> ops) of
                 Some op \<Rightarrow> (False, Operator_invalid op)
               | None \<Rightarrow> (True, No_message)))"

text \<open>
  \<open>generate_filename\<close>, with the formatted time of the call as \<open>timestamp\<close> and the
  extension \<open>txt\<close>.
\<close>

definition replace_slashes :: "string \<Rightarrow> string" where
  "replace_slashes s = map (\<lambda>c. if c = CHR ''/'' \<or> c = CHR 0x5C then CHR ''_'' else c) s"

definition generate_filename :: "string \<Rightarrow> string \<Rightarrow> string \<Rightarrow> string \<Rightarrow> string \<Rightarrow> string" where
  "generate_filename prefix province city suffix timestamp =
     prefix @ ''_'' @ replace_slashes province @ ''_'' @ replace_slashes city @ ''_'' @
     suffix @ ''_'' @ timestamp @ ''.'' @ ''txt''"

text \<open>
  The configuration read by \<open>NumberGenerator.__init__\<close>, and the answers of
  \<open>api_generate\<close>: the status code with what the JSON body carries.
\<close>

record config =
  max_count :: int
  file_size_limit :: int

datatype body =
  Invalid_input message
  | No_numbers_found
  | Over_limit int
  | Generated int "file_info list"
  | Generation_failed error

datatype response = Response int body

text \<open>The suffix of the request as \<open>api_generate\<close> extracts it: stripped, or empty.\<close>

definition extract_suffix :: "string option \<Rightarrow> string" where
  "extract_suffix raw = (if truthy raw \<and> strip (the raw) \<noteq> [] then strip (the raw) else [])"

definition or_none :: "string \<Rightarrow> string option" where
  "or_none s = (if s \<noteq> [] then Some s else None)"

text \<open>
  The identifiers \<open>api_generate\<close> asks \<open>generate_numbers\<close> for: the sorted list without
  duplicates.
\<close>

definition request_numbers :: "phone_location list \<Rightarrow> request \<Rightarrow> string list" where
  "request_numbers db data =
     generate_numbers db (strip (req_prefix data))
       (or_none (extract_suffix (req_suffix_4 data)))
       (or_none (extract_suffix (req_suffix_3 data)))
       (strip (req_province data)) (strip (req_city data))
       (case req_operators data of None \<Rightarrow> None | Some ops \<Rightarrow> if ops \<noteq> [] then Some ops else None)"

text \<open>
  \<open>api_generate\<close>, over the table, the formatted time and the download directory. An
  exception raised inside is caught and answered with status 500.
\<close>

definition api_generate ::
  "config \<Rightarrow> phone_location list \<Rightarrow> string \<Rightarrow> filesystem \<Rightarrow> request \<Rightarrow> response \<times> filesystem"
where
  "api_generate cfg db timestamp fs data =
     (let (valid, error_msg) = validate_input data in
      if \<not> valid then (Response 400 (Invalid_input error_msg), fs)
      else
        let prefix = strip (req_prefix data);
            suffix_4 = extract_suffix (req_suffix_4 data);
            suffix_3 = extract_suffix (req_suffix_3 data);
            province = strip (req_province data);
            city = strip (req_city data);
            numbers = request_numbers db data
        in
        if numbers = [] then (Response 404 No_numbers_found, fs)
        else if int (length numbers) > max_count cfg
          then (Response 400 (Over_limit (max_count cfg)), fs)
        else
          let suffix = (if suffix_4 \<noteq> [] then suffix_4
                        else if suffix_3 \<noteq> [] then suffix_3 else ''ALL'');
              filename = generate_filename prefix province city suffix timestamp
          in
          case generate_to_file fs numbers filename of
            (Inl e, fs') \<Rightarrow> (Response 500 (Generation_failed e), fs')
          | (Inr (actual_filename, file_size, file_size_str), fs') \<Rightarrow>
              let file_size_bytes = getsize fs' actual_filename in
              if file_size_bytes > file_size_limit cfg * 1024 * 1024 then
                (case split_file_for_download fs' actual_filename 20 of
                   (Inl e, fs'') \<Rightarrow> (Response 500 (Generation_failed e), fs'')
                 | (Inr files, fs'') \<Rightarrow>
                     (Response 200 (Generated (int (length numbers)) files), fs''))
              else
                (Response 200
                   (Generated (int (length numbers))
                      [\<lparr>info_name = actual_filename, info_size = file_size_str,
                        info_url = ''/download/'' @ actual_filename\<rparr>]),
                 fs'))"

section \<open>Reference definitions and example inputs\<close>

text \<open>
  The decimal representation of fixed width, and the trailing block of an identifier
  as the specification describes it: the four decimal digits of \<open>k\<close>, zero-padded.
\<close>

fun digits :: "nat \<Rightarrow> nat \<Rightarrow> string" where
  "digits 0 n = []"
| "digits (Suc w) n = digits w (n div 10) @ [digit_char (n mod 10)]"

definition local4 :: "nat \<Rightarrow> string" where
  "local4 k =
     [digit_char (k div 1000 mod 10), digit_char (k div 100 mod 10),
      digit_char (k div 10 mod 10), digit_char (k mod 10)]"

definition example_db :: "phone_location list" where
  "example_db =
     [\<lparr>loc_prefix = ''138'', loc_suffix = ''0013'', loc_province = ''P'', loc_city = ''C'',
       loc_operator = 1\<rparr>,
      \<lparr>loc_prefix = ''138'', loc_suffix = ''0013'', loc_province = ''P'', loc_city = ''C'',
       loc_operator = 2\<rparr>,
      \<lparr>loc_prefix = ''139'', loc_suffix = ''0755'', loc_province = ''P'', loc_city = ''D'',
       loc_operator = 1\<rparr>]"

text \<open>
  The lines of a text file as Python reads them (\<open>f.readlines()\<close>): \<open>readline\<close> repeated
  to the end of the file.
\<close>

function file_lines :: "string \<Rightarrow> string list" where
  "file_lines f = (if fst (readline f) = [] then [] else fst (readline f) # file_lines (snd (readline f)))"
  by pat_completeness auto
termination
  by (relation "measure length") (simp_all add: length_readline_less)

declare file_lines.simps [simp del]

text \<open>
  The batches of lines the splitting loop reads one after the other, without the part
  files written for them.
\<close>

function split_batches :: "int \<Rightarrow> string \<Rightarrow> string list list" where
  "split_batches max_size f =
     (if fst (read_batch 500000 max_size [] 0 f) = [] then []
      else fst (read_batch 500000 max_size [] 0 f)
             # split_batches max_size (snd (read_batch 500000 max_size [] 0 f)))"
  by pat_completeness auto
termination
proof (relation "measure (\<lambda>(max_size, f). length f)")
  show "wf (measure (\<lambda>(max_size, f). length f))" by simp
next
  fix max_size :: int and f :: string
  assume a: "fst (read_batch 500000 max_size [] 0 f) \<noteq> []"
  obtain ls f' where r: "read_batch 500000 max_size [] 0 f = (ls, f')"
    by (cases "read_batch 500000 max_size [] 0 f")
  from length_read_batch [OF r] a r have "length f' < length f" by simp
  with r show "((max_size, snd (read_batch 500000 max_size [] 0 f)), max_size, f)
      \<in> measure (\<lambda>(max_size, f). length f)" by simp
qed

declare split_batches.simps [simp del]

definition sum_len :: "string list \<Rightarrow> int" where
  "sum_len ls = int (length (concat ls))"

text \<open>The shape of a line: ended by one \<open>\n\<close>, or without end at the end of the file.\<close>

definition terminated :: "string \<Rightarrow> bool" where
  "terminated l = (\<exists>body. l = body @ [LF] \<and> LF \<notin> set body \<and> CR \<notin> set body)"

definition unterminated :: "string \<Rightarrow> bool" where
  "unterminated l = (l \<noteq> [] \<and> LF \<notin> set l \<and> CR \<notin> set l)"

fun proper_lines :: "string list \<Rightarrow> bool" where
  "proper_lines [] = True"
| "proper_lines [l] = (terminated l \<or> unterminated l)"
| "proper_lines (l # ls) = (terminated l \<and> proper_lines ls)"

text \<open>The description the loop appends for the part with number \<open>k\<close> and lines \<open>b\<close>.\<close>

definition part_info :: "string \<Rightarrow> nat \<Rightarrow> string list \<Rightarrow> file_info" where
  "part_info filename k b =
     \<lparr>info_name = part_filename k filename, info_size = spec_format (sum_len b),
      info_url = ''/download/'' @ part_filename k filename\<rparr>"

definition example_content :: string where
  "example_content = [CHR ''a'', LF, CHR ''b'', CHR ''b'', LF, CHR ''c'']"

definition example_fs :: filesystem where
  "example_fs = write_file Map.empty ''f.txt'' example_content"

definition example_parts :: "file_info list" where
  "example_parts =
     [\<lparr>info_name = ''part_1_f.txt'', info_size = ''2.00 B'',
       info_url = ''/download/part_1_f.txt''\<rparr>,
      \<lparr>info_name = ''part_2_f.txt'', info_size = ''3.00 B'',
       info_url = ''/download/part_2_f.txt''\<rparr>,
      \<lparr>info_name = ''part_3_f.txt'', info_size = ''1.00 B'',
       info_url = ''/download/part_3_f.txt''\<rparr>]"

definition example_fs' :: filesystem where
  "example_fs' =
     write_file
       (write_file (write_file example_fs ''part_1_f.txt'' [CHR ''a'', LF])
          ''part_2_f.txt'' [CHR ''b'', CHR ''b'', LF])
       ''part_3_f.txt'' ''c''"

definition big_content :: string where
  "big_content = concat (replicate 100000 (''13800130000'' @ [LF]))"

definition big_fs :: filesystem where
  "big_fs = write_file Map.empty ''numbers.txt'' big_content"

definition locked_fs :: filesystem where
  "locked_fs = Map.empty(''locked.txt'' \<mapsto> \<lparr>content = ''12'', readable = False\<rparr>)"

definition empty_fs :: filesystem where
  "empty_fs = write_file Map.empty ''empty.txt'' []"

definition example_numbers :: "string list" where
  "example_numbers = [''13800130000'', ''13800130001'']"

definition example_request :: request where
  "example_request =
     \<lparr>req_prefix = ''138'', req_suffix_4 = Some ''1234'', req_suffix_3 = None,
      req_province = ''P'', req_city = ''C'', req_operators = None\<rparr>"

section \<open>Properties of the number generator\<close>

lemma length_digits [simp]: "length (digits w n) = w"
  by (induction w arbitrary: n) auto

lemma of_char_digit_char: "d < 10 \<Longrightarrow> of_char (digit_char d) = 48 + d"
  unfolding digit_char_def by simp

lemma digit_char_less: "a < 10 \<Longrightarrow> b < 10 \<Longrightarrow> digit_char a < digit_char b \<longleftrightarrow> a < b"
  by (simp add: less_char_def of_char_digit_char)

lemma digit_char_not_sign: "d < 10 \<Longrightarrow> digit_char d \<noteq> CHR ''+'' \<and> digit_char d \<noteq> CHR ''-''"
  using of_char_digit_char [of d] by (auto simp: of_char_def)

lemma is_digit_char_digit_char: "d < 10 \<Longrightarrow> is_digit_char (digit_char d)"
  by (simp add: is_digit_char_def less_eq_char_def of_char_digit_char)

lemma digit_char_0: "digit_char 0 = CHR ''0''"
  by (simp add: digit_char_def char_of_eq_iff)

lemma digits_0: "digits w 0 = replicate w (CHR ''0'')"
  by (induction w) (simp_all add: digit_char_0 replicate_append_same)

lemma str_nat_small: "n < 10 \<Longrightarrow> str_nat n = [digit_char n]"
  by (subst str_nat.simps) simp

lemma str_nat_large: "\<not> n < 10 \<Longrightarrow> str_nat n = str_nat (n div 10) @ [digit_char (n mod 10)]"
  by (subst str_nat.simps) simp

lemma str_nat_not_Nil: "str_nat n \<noteq> []"
  by (cases "n < 10") (simp_all add: str_nat_small str_nat_large)

lemma str_nat_digits:
  "n < 10 ^ w \<Longrightarrow> 0 < w \<Longrightarrow>
   replicate (w - length (str_nat n)) (CHR ''0'') @ str_nat n = digits w n"
proof (induction w arbitrary: n)
  case 0
  then show ?case by simp
next
  case (Suc w)
  show ?case
  proof (cases "n < 10")
    case True
    then show ?thesis by (simp add: str_nat_small digits_0)
  next
    case False
    from False Suc.prems have w: "0 < w" by (cases w) auto
    from Suc.prems have "n div 10 < 10 ^ w"
      by (simp add: less_mult_imp_div_less mult.commute)
    from Suc.IH [OF this w] False show ?thesis
      by (simp add: str_nat_large)
  qed
qed

lemma str_nat_head_not_sign: "str_nat n = c # cs \<Longrightarrow> c \<noteq> CHR ''+'' \<and> c \<noteq> CHR ''-''"
proof (induction n arbitrary: c cs rule: str_nat.induct)
  case (1 n)
  show ?case
  proof (cases "n < 10")
    case True
    with "1.prems" have "c = digit_char n" by (simp add: str_nat_small)
    with True show ?thesis by (simp add: digit_char_not_sign)
  next
    case False
    obtain d ds where d: "str_nat (n div 10) = d # ds"
      using str_nat_not_Nil [of "n div 10"] by (cases "str_nat (n div 10)") auto
    with False "1.prems" have "c = d" by (simp add: str_nat_large)
    with "1.IH" [OF False d] show ?thesis by simp
  qed
qed

lemma zfill_str_nat: "n < 10 ^ w \<Longrightarrow> 0 < w \<Longrightarrow> zfill w (str_nat n) = digits w n"
  using str_nat_digits [of n w] str_nat_head_not_sign [of n] str_nat_not_Nil [of n]
  by (auto simp: zfill_def split: list.splits)

lemma list_less_append_same_length:
  fixes xs ys :: "'a::linorder list"
  shows "xs < ys \<Longrightarrow> length xs = length ys \<Longrightarrow> xs @ a < ys @ b"
proof (induction xs arbitrary: ys)
  case Nil
  then show ?case by simp
next
  case (Cons x xs)
  then show ?case by (cases ys) auto
qed

lemma list_less_same_prefix:
  fixes xs :: "'a::linorder list"
  shows "xs @ a < xs @ b \<longleftrightarrow> a < b"
  by (induction xs) auto

lemma digits_less: "i < j \<Longrightarrow> j < 10 ^ w \<Longrightarrow> digits w i < digits w j"
proof (induction w arbitrary: i j)
  case 0
  then show ?case by simp
next
  case (Suc w)
  have j: "j div 10 < 10 ^ w"
    using Suc.prems(2) by (simp add: less_mult_imp_div_less mult.commute)
  have "i div 10 \<le> j div 10" using Suc.prems(1) by (simp add: div_le_mono)
  moreover have "i div 10 = j div 10 \<Longrightarrow> i mod 10 < j mod 10"
    using Suc.prems(1) by (metis mod_div_decomp nat_add_left_cancel_less)
  ultimately consider "i div 10 < j div 10" | "i div 10 = j div 10" "i mod 10 < j mod 10"
    by (cases "i div 10 = j div 10") auto
  then show ?case
  proof cases
    case 1
    from Suc.IH [OF this j] show ?thesis
      by (simp add: list_less_append_same_length)
  next
    case 2
    then show ?thesis
      by (simp add: list_less_same_prefix digit_char_less)
  qed
qed

lemma digits_4: "digits 4 k = local4 k"
proof -
  have "digits (Suc (Suc (Suc (Suc 0)))) k = local4 k"
    by (simp add: local4_def div_mult2_eq [symmetric])
  moreover have "(4::nat) = Suc (Suc (Suc (Suc 0)))" by simp
  ultimately show ?thesis by (simp only:)
qed

lemma zfill_4: "k < 10000 \<Longrightarrow> zfill 4 (str_nat k) = local4 k"
  using zfill_str_nat [of k 4] digits_4 [of k] by simp

lemma local4_less: "i < j \<Longrightarrow> j < 10000 \<Longrightarrow> local4 i < local4 j"
  using digits_less [of i j 4] by (simp add: digits_4)

lemma isdigit_local4: "list_all is_digit_char (local4 k)"
  by (simp add: local4_def is_digit_char_digit_char)

lemma expand_full_eq:
  "\<not> truthy suffix_4 \<Longrightarrow> \<not> truthy suffix_3 \<Longrightarrow>
   generate_numbers_for_location prefix suffix suffix_4 suffix_3 =
     map (\<lambda>k. prefix @ suffix @ local4 k) [0..<10000]"
  unfolding generate_numbers_for_location_def
  by (simp add: zfill_4 del: upt_rec_numeral cong: map_cong)

lemma expand_full_sorted:
  "sorted_wrt (<) (map (\<lambda>k. prefix @ suffix @ local4 k) [0..<10000])"
  unfolding sorted_wrt_iff_nth_less
  by (simp add: list_less_same_prefix local4_less del: upt_rec_numeral)

lemma expand_full_props:
  fixes prefix suffix :: string
  assumes "\<not> truthy suffix_4" "\<not> truthy suffix_3"
  defines "numbers \<equiv> generate_numbers_for_location prefix suffix suffix_4 suffix_3"
  shows "length numbers = 10000" and "sorted_wrt (<) numbers" and "distinct numbers"
    and "\<And>k. k < 10000 \<Longrightarrow> numbers ! k = prefix @ suffix @ local4 k"
proof -
  have eq: "numbers = map (\<lambda>k. prefix @ suffix @ local4 k) [0..<10000]"
    unfolding numbers_def by (rule expand_full_eq [OF assms(1,2)])
  show "length numbers = 10000" unfolding eq by (simp del: upt_rec_numeral)
  show s: "sorted_wrt (<) numbers" unfolding eq by (rule expand_full_sorted)
  then show "distinct numbers" by (simp add: strict_sorted_iff)
  show "\<And>k. k < 10000 \<Longrightarrow> numbers ! k = prefix @ suffix @ local4 k"
    unfolding eq by (simp del: upt_rec_numeral)
qed

text \<open>
  C5. A segment with a 3-digit prefix and a 4-digit suffix and no exact suffix expands to
  exactly 10,000 distinct identifiers of 11 digits in ascending order, all starting with
  the 7 digits prefix+suffix, the \<open>k\<close>-th one (from 0) ending in the four zero-padded
  decimal digits of \<open>k\<close>: 0000 to 9999 with no gap and no repeat.
\<close>

theorem expand_full_ten_thousand:
  assumes "length prefix = 3" and "isdigit prefix" and "length suffix = 4" and "isdigit suffix"
    and "\<not> truthy suffix_4" and "\<not> truthy suffix_3"
  shows "length (generate_numbers_for_location prefix suffix suffix_4 suffix_3) = 10000
    \<and> distinct (generate_numbers_for_location prefix suffix suffix_4 suffix_3)
    \<and> sorted_wrt (<) (generate_numbers_for_location prefix suffix suffix_4 suffix_3)
    \<and> (\<forall>k<10000. generate_numbers_for_location prefix suffix suffix_4 suffix_3 ! k
          = prefix @ suffix @ local4 k)
    \<and> (\<forall>number \<in> set (generate_numbers_for_location prefix suffix suffix_4 suffix_3).
          length number = 11 \<and> isdigit number \<and> take 7 number = prefix @ suffix)"
proof -
  note p = expand_full_props [where prefix = prefix and suffix = suffix, OF assms(5,6)]
  have "length number = 11 \<and> isdigit number \<and> take 7 number = prefix @ suffix"
    if "number \<in> set (generate_numbers_for_location prefix suffix suffix_4 suffix_3)" for number
  proof -
    from that obtain k where "k < 10000" "number = prefix @ suffix @ local4 k"
      using p(1) p(4) by (metis in_set_conv_nth)
    with assms(1-4) show ?thesis
      by (simp add: isdigit_def isdigit_local4) (simp add: local4_def)
  qed
  with p show ?thesis by blast
qed

theorem expand_full_ten_thousand_witness:
  "length (generate_numbers_for_location ''138'' ''0013'' None None) = 10000
   \<and> distinct (generate_numbers_for_location ''138'' ''0013'' None None)
   \<and> generate_numbers_for_location ''138'' ''0013'' None None ! 0 = ''13800130000''
   \<and> generate_numbers_for_location ''138'' ''0013'' None None ! 42 = ''13800130042''
   \<and> generate_numbers_for_location ''138'' ''0013'' None None ! 9999 = ''13800139999''"
proof -
  have h: "length ''138'' = 3" "isdigit ''138''" "length ''0013'' = 4" "isdigit ''0013''"
    "\<not> truthy None" "\<not> truthy None"
    by (simp_all add: isdigit_def is_digit_char_def truthy_def)
  have l: "local4 0 = ''0000''" "local4 42 = ''0042''" "local4 9999 = ''9999''"
    by (simp_all add: local4_def digit_char_def char_of_eq_iff)
  from expand_full_ten_thousand [OF h] l show ?thesis
    by simp
qed

lemma generate_numbers_cases:
  "generate_numbers db prefix suffix suffix_3 province city operators = [] \<or>
   generate_numbers db prefix suffix suffix_3 province city operators =
     sort (remdups (concat (map (\<lambda>location.
       generate_numbers_for_location prefix (loc_suffix location) suffix suffix_3)
       (query_phone_locations db prefix province city operators))))"
  by (simp add: generate_numbers_def Let_def)

lemma strict_sorted_sort_remdups: "sorted_wrt (<) (sort (remdups xs))"
  by (simp add: strict_sorted_iff)

lemma length_sort_remdups_twice:
  "distinct xs \<Longrightarrow> length (sort (remdups (xs @ xs))) = length xs"
  by (simp add: length_remdups_card_conv distinct_card)

text \<open>
  C4. The list returned by \<open>generate_numbers\<close> is strictly ascending in the order of
  strings, so it has no duplicates; and when the query matches two segment records with
  the same suffix and no exact suffix is asked for, the list has exactly 10,000
  identifiers.
\<close>

theorem generate_numbers_strictly_ascending:
  "sorted_wrt (<) (generate_numbers db prefix suffix suffix_3 province city operators)
   \<and> distinct (generate_numbers db prefix suffix suffix_3 province city operators)
   \<and> (\<forall>l1 l2. query_phone_locations db prefix province city operators = [l1, l2]
         \<and> loc_suffix l1 = loc_suffix l2 \<and> \<not> truthy suffix \<and> \<not> truthy suffix_3
       \<longrightarrow> length (generate_numbers db prefix suffix suffix_3 province city operators) = 10000)"
proof -
  have s: "sorted_wrt (<) (generate_numbers db prefix suffix suffix_3 province city operators)"
    using generate_numbers_cases [of db prefix suffix suffix_3 province city operators]
      strict_sorted_sort_remdups by (metis sorted_wrt.simps(1))
  then have d: "distinct (generate_numbers db prefix suffix suffix_3 province city operators)"
    by (simp add: strict_sorted_iff)
  have "length (generate_numbers db prefix suffix suffix_3 province city operators) = 10000"
    if q: "query_phone_locations db prefix province city operators = [l1, l2]"
      and e: "loc_suffix l1 = loc_suffix l2" and n: "\<not> truthy suffix" "\<not> truthy suffix_3"
    for l1 l2
  proof -
    note p = expand_full_props [where prefix = prefix and suffix = "loc_suffix l2", OF n]
    have "generate_numbers db prefix suffix suffix_3 province city operators =
        sort (remdups (generate_numbers_for_location prefix (loc_suffix l2) suffix suffix_3 @
                       generate_numbers_for_location prefix (loc_suffix l2) suffix suffix_3))"
      by (simp add: generate_numbers_def q e)
    with p(1,3) show ?thesis
      by (simp only: length_sort_remdups_twice)
  qed
  with s d show ?thesis by blast
qed

theorem generate_numbers_strictly_ascending_witness:
  "length (query_phone_locations example_db ''138'' ''P'' ''C'' None) = 2
   \<and> sorted_wrt (<) (generate_numbers example_db ''138'' None None ''P'' ''C'' None)
   \<and> length (generate_numbers example_db ''138'' None None ''P'' ''C'' None) = 10000"
proof -
  have q: "query_phone_locations example_db ''138'' ''P'' ''C'' None = [example_db ! 0, example_db ! 1]"
    by (simp add: query_phone_locations_def example_db_def)
  have e: "loc_suffix (example_db ! 0) = loc_suffix (example_db ! 1)"
    by (simp add: example_db_def)
  have n: "\<not> truthy None" by (simp add: truthy_def)
  from generate_numbers_strictly_ascending [of example_db "''138''" None None "''P''" "''C''" None]
    q e n show ?thesis
    by (metis length_Cons list.size(3) numeral_2_eq_2)
qed

section \<open>Properties of the size formatter\<close>

lemma bitlen_le_53: "\<bar>n\<bar> < 2 ^ 53 \<Longrightarrow> bitlen \<bar>n\<bar> \<le> 53"
proof -
  assume "\<bar>n\<bar> < 2 ^ 53"
  then have "nat \<bar>n\<bar> < 2 ^ 53" by (simp add: nat_less_iff)
  then have "floorlog 2 (nat \<bar>n\<bar>) \<le> 53" by (simp add: floorlog_le_iff)
  then show ?thesis by (simp add: bitlen_def)
qed

lemma round53_exact: "\<bar>n\<bar> < 2 ^ 53 \<Longrightarrow> round53 n = n"
  using bitlen_le_53 [of n] by (simp add: round53_def Let_def)

lemma round53_ge_power:
  assumes "0 < n" "53 < bitlen n"
  shows "2 ^ nat (bitlen n - 1) \<le> round53 n"
proof -
  define e where "e = nat (bitlen n - 53)"
  define d :: int where "d = 2 ^ e"
  define q where "q = n div d"
  define q' where "q' = (if 2 * (n mod d) > d \<or> (2 * (n mod d) = d \<and> odd q) then q + 1 else q)"
  have dpos: "0 < d" by (simp add: d_def)
  have r: "round53 n = q' * d"
    using assms by (simp add: round53_def Let_def q'_def q_def d_def e_def)
  have b: "nat (bitlen n - 1) = 52 + e" using assms(2) by (simp add: e_def)
  have "(2::int) ^ 52 * d \<le> n"
    using bitlen_bounds [OF assms(1)] by (simp add: b d_def power_add)
  then have "(2 ^ 52 * d) div d \<le> n div d"
    using dpos by (rule zdiv_mono1)
  then have "2 ^ 52 \<le> q"
    unfolding q_def using dpos by simp
  then have "2 ^ 52 \<le> q'" by (simp add: q'_def)
  then have "2 ^ 52 * d \<le> q' * d" using dpos by simp
  then show ?thesis by (simp add: r b d_def power_add)
qed

lemma round53_ge_1024:
  assumes "1024 \<le> n"
  shows "1024 \<le> round53 n"
proof (cases "bitlen n \<le> 53")
  case True
  with assms show ?thesis by (simp add: round53_def Let_def)
next
  case False
  with assms have "2 ^ nat (bitlen n - 1) \<le> round53 n"
    by (intro round53_ge_power) auto
  moreover have "(2::int) ^ 10 \<le> 2 ^ nat (bitlen n - 1)"
    using False by (intro power_increasing) auto
  ultimately show ?thesis by simp
qed

lemma format_file_size_small:
  assumes "0 \<le> n" "n < 1024"
  shows "format_file_size n = Inr (format_2f (of_int n) @ '' B'')"
proof -
  have "round53 n = n" using assms by (intro round53_exact) auto
  with assms show ?thesis
    by (simp add: format_file_size_def float_of_int_def)
qed

lemma format_file_size_large:
  assumes "1024 \<le> n" "round53 n < 2 ^ 1034"
  shows "format_file_size n = Inr (spec_format (round53 n))"
proof -
  have r: "1024 \<le> round53 n" using assms(1) by (rule round53_ge_1024)
  then have a: "\<bar>round53 n\<bar> = round53 n" by simp
  from r have nr: "\<not> (of_int (round53 n) :: rat) < 1024" by simp
  from assms(1) have nn: "\<not> n < 1024" by simp
  show ?thesis
    unfolding format_file_size_def spec_format_def
    using assms(2) nn nr by (simp add: a)
qed

lemma format_file_size_overflow:
  assumes "0 \<le> n" "2 ^ 1034 \<le> round53 n"
  shows "format_file_size n = Inl OverflowError"
proof -
  have "\<not> n < 1024"
  proof
    assume "n < 1024"
    with assms(1) have "round53 n = n" by (intro round53_exact) auto
    with assms(2) \<open>n < 1024\<close> show False by simp
  qed
  with assms show ?thesis
    by (simp add: format_file_size_def)
qed

text \<open>
  C9. For a byte count \<open>n \<ge> 0\<close> below \<open>2^53\<close> the size formatter returns what
  the specification describes: \<open>n\<close> divided by 1024 through the units B, KB, MB, GB,
  stopping at the first unit where the scaled value is below 1024, else TB, rendered with
  two decimal places. For any \<open>n \<ge> 0\<close> it does so for the float nearest to \<open>n\<close>,
  unless that float is \<open>2^1034\<close> or more, where it raises \<open>OverflowError\<close>. In
  particular 500 gives \<open>500.00 B\<close>, 2048 gives \<open>2.00 KB\<close> and 3 * 1024 * 1024
  gives \<open>3.00 MB\<close>.
\<close>

theorem format_file_size_spec:
  "(\<forall>n. 0 \<le> n \<and> n < 2 ^ 53 \<longrightarrow> format_file_size n = Inr (spec_format n))
   \<and> (\<forall>n. 0 \<le> n \<and> round53 n < 2 ^ 1034 \<longrightarrow>
          format_file_size n = Inr (spec_format (round53 n)))
   \<and> (\<forall>n. 0 \<le> n \<and> 2 ^ 1034 \<le> round53 n \<longrightarrow> format_file_size n = Inl OverflowError)
   \<and> format_file_size 500 = Inr ''500.00 B''
   \<and> format_file_size 2048 = Inr ''2.00 KB''
   \<and> format_file_size (1024 * 1024 * 3) = Inr ''3.00 MB''"
proof -
  have general: "format_file_size n = Inr (spec_format (round53 n))"
    if "0 \<le> n" "round53 n < 2 ^ 1034" for n
  proof (cases "n < 1024")
    case True
    with that(1) have "round53 n = n" by (intro round53_exact) auto
    with True that(1) show ?thesis
      by (simp add: format_file_size_small spec_format_def)
  next
    case False
    with that(2) show ?thesis by (intro format_file_size_large) auto
  qed
  have exact: "format_file_size n = Inr (spec_format n)" if "0 \<le> n" "n < 2 ^ 53" for n
  proof -
    from that have "round53 n = n" by (intro round53_exact) auto
    with general [of n] that show ?thesis by simp
  qed
  have e1: "format_file_size 500 = Inr ''500.00 B''" by code_simp
  have e2: "format_file_size 2048 = Inr ''2.00 KB''" by code_simp
  have e3: "format_file_size (1024 * 1024 * 3) = Inr ''3.00 MB''" by code_simp
  from general exact format_file_size_overflow e1 e2 e3 show ?thesis by blast
qed

lemma bitlen_2_1034: "bitlen (2 ^ 1034) = 1035"
proof -
  have "bitlen 1 = 1" by (simp add: bitlen_alt_def)
  with bitlen_pow2 [of 1 1034] show ?thesis by simp
qed

lemma round53_2_1034: "2 ^ 1034 \<le> round53 (2 ^ 1034)"
proof -
  have b: "53 < bitlen (2 ^ 1034)" unfolding bitlen_2_1034 by simp
  have p: "(0::int) < 2 ^ 1034" by simp
  from round53_ge_power [OF p b]
  have "2 ^ nat (1035 - 1) \<le> round53 (2 ^ 1034)" unfolding bitlen_2_1034 .
  then show ?thesis by simp
qed

theorem format_file_size_spec_witness:
  "(0::int) \<le> 1536 \<and> (1536::int) < 2 ^ 53 \<and> round53 1536 < 2 ^ 1034
   \<and> format_file_size 1536 = Inr ''1.50 KB''
   \<and> format_file_size 1536 = Inr (spec_format (round53 1536))
   \<and> (0::int) \<le> 2 ^ 1034 \<and> 2 ^ 1034 \<le> round53 (2 ^ 1034)
   \<and> format_file_size (2 ^ 1034) = Inl OverflowError"
proof -
  have s: "spec_format 1536 = ''1.50 KB''" by code_simp
  have h: "(0::int) \<le> 1536 \<and> (1536::int) < 2 ^ 53" by simp
  have r: "round53 1536 = 1536" by (rule round53_exact) simp
  have h2: "(0::int) \<le> 1536 \<and> round53 1536 < 2 ^ 1034" unfolding r by simp
  have h3: "(0::int) \<le> 2 ^ 1034 \<and> 2 ^ 1034 \<le> round53 (2 ^ 1034)"
    using round53_2_1034 by simp
  from format_file_size_spec h have a: "format_file_size 1536 = Inr (spec_format 1536)"
    by blast
  from format_file_size_spec h2
  have b: "format_file_size 1536 = Inr (spec_format (round53 1536))"
    by blast
  from format_file_size_spec h3
  have c: "format_file_size (2 ^ 1034) = Inl OverflowError"
    by blast
  from a b c h h2 h3 show ?thesis unfolding s by blast
qed

theorem format_file_size_counterexample:
  "format_file_size (2 ^ 1034) = Inl OverflowError"
  using format_file_size_overflow [of "2 ^ 1034"] round53_2_1034 by simp

section \<open>Properties of the splitting of files\<close>

lemma file_lines_Nil [simp]: "file_lines [] = []"
  by (subst file_lines.simps) simp

lemma readline_empty_iff: "fst (readline f) = [] \<longleftrightarrow> f = []"
  by (cases f rule: readline_cases) auto

lemma readline_Nil_snd: "fst (readline f) = [] \<Longrightarrow> snd (readline f) = []"
  by (cases f rule: readline_cases) auto

lemma file_lines_step:
  "f \<noteq> [] \<Longrightarrow> file_lines f = fst (readline f) # file_lines (snd (readline f))"
  by (subst file_lines.simps) (simp add: readline_empty_iff)

lemma read_batch_0: "read_batch 0 max_size ls cs f = (ls, f)"
  by (subst read_batch.simps) simp

lemma read_batch_eof:
  "n \<noteq> 0 \<Longrightarrow> readline f = ([], g) \<Longrightarrow> read_batch n max_size ls cs f = (ls, g)"
  by (subst read_batch.simps) simp

lemma read_batch_full:
  "n \<noteq> 0 \<Longrightarrow> readline f = (line, g) \<Longrightarrow> line \<noteq> [] \<Longrightarrow>
   cs + int (length line) \<ge> max_size \<Longrightarrow>
   read_batch n max_size ls cs f = (ls @ [line], g)"
  by (subst read_batch.simps) simp

lemma read_batch_more:
  "n \<noteq> 0 \<Longrightarrow> readline f = (line, g) \<Longrightarrow> line \<noteq> [] \<Longrightarrow>
   \<not> cs + int (length line) \<ge> max_size \<Longrightarrow>
   read_batch n max_size ls cs f =
     read_batch (n - 1) max_size (ls @ [line]) (cs + int (length line)) g"
  by (subst read_batch.simps) simp

text \<open>What one run of the batch loop does, in terms of the lines of the file.\<close>

lemma read_batch_lines:
  "read_batch n max_size ls cs f = (ls', f') \<Longrightarrow>
   \<exists>new. ls' = ls @ new \<and> file_lines f = new @ file_lines f' \<and> length new \<le> n
     \<and> (new = [] \<or> length new = 1 \<or> cs + sum_len (butlast new) < max_size)
     \<and> (f' \<noteq> [] \<longrightarrow> length new = n \<or> cs + sum_len new \<ge> max_size)"
proof (induction n max_size ls cs f arbitrary: ls' f' rule: read_batch.induct)
  case (1 n max_size ls cs f)
  show ?case
  proof (cases "n = 0")
    case True
    with "1.prems" have "ls' = ls" "f' = f" by (simp_all add: read_batch_0)
    with True show ?thesis by simp
  next
    case n: False
    obtain line g where rl: "readline f = (line, g)" by (cases "readline f")
    show ?thesis
    proof (cases "line = []")
      case True
      with rl have "f = []" "g = []"
        using readline_empty_iff [of f] readline_Nil_snd [of f] by simp_all
      moreover from True n rl "1.prems" have "ls' = ls" "f' = g"
        by (simp_all add: read_batch_eof)
      ultimately show ?thesis by simp
    next
      case line: False
      then have fne: "f \<noteq> []" using rl readline_empty_iff [of f] by auto
      have fl: "file_lines f = line # file_lines g"
        using file_lines_step [OF fne] rl by simp
      show ?thesis
      proof (cases "cs + int (length line) \<ge> max_size")
        case True
        with n line rl "1.prems" have "ls' = ls @ [line]" "f' = g"
          by (simp_all add: read_batch_full)
        with fl True n show ?thesis
          by (intro exI [of _ "[line]"]) (simp add: sum_len_def)
      next
        case False
        with n line rl "1.prems"
        have rec: "read_batch (n - 1) max_size (ls @ [line]) (cs + int (length line)) g = (ls', f')"
          by (simp add: read_batch_more)
        from "1.IH" [OF n refl rl [symmetric] line refl refl False rec]
        obtain new where new: "ls' = (ls @ [line]) @ new" "file_lines g = new @ file_lines f'"
          "length new \<le> n - 1"
          "new = [] \<or> length new = 1 \<or> cs + int (length line) + sum_len (butlast new) < max_size"
          "f' \<noteq> [] \<longrightarrow> length new = n - 1 \<or> cs + int (length line) + sum_len new \<ge> max_size"
          by blast
        have "cs + sum_len (butlast (line # new)) < max_size"
          using new(4) False by (cases new) (auto simp: sum_len_def)
        moreover have "f' \<noteq> [] \<longrightarrow> length (line # new) = n \<or> cs + sum_len (line # new) \<ge> max_size"
          using new(5) n by (auto simp: sum_len_def)
        ultimately show ?thesis
          using new(1,2,3) fl n
          by (intro exI [of _ "line # new"]) auto
      qed
    qed
  qed
qed

lemma LF_neq_CR [simp]: "LF \<noteq> CR" "CR \<noteq> LF"
  by (simp_all add: LF_def CR_def)

lemma read_batch_progress:
  assumes "n \<noteq> 0" "f \<noteq> []" "read_batch n max_size ls cs f = (ls', f')"
  shows "ls' \<noteq> ls"
proof -
  obtain line g where rl: "readline f = (line, g)" by (cases "readline f")
  with assms(2) have line: "line \<noteq> []" using readline_empty_iff [of f] by auto
  show ?thesis
  proof (cases "cs + int (length line) \<ge> max_size")
    case True
    with assms rl line have "ls' = ls @ [line]" by (simp add: read_batch_full)
    then show ?thesis by simp
  next
    case False
    with assms rl line
    have "read_batch (n - 1) max_size (ls @ [line]) (cs + int (length line)) g = (ls', f')"
      by (simp add: read_batch_more)
    from read_batch_lines [OF this] show ?thesis by auto
  qed
qed

lemma readline_terminated:
  "LF \<notin> set body \<Longrightarrow> CR \<notin> set body \<Longrightarrow> readline (body @ LF # g) = (body @ [LF], g)"
  by (induction body) auto

lemma readline_unterminated:
  "LF \<notin> set l \<Longrightarrow> CR \<notin> set l \<Longrightarrow> readline l = (l, [])"
  by (induction l) auto

lemma readline_shape:
  "fst (readline f) \<noteq> [] \<Longrightarrow>
   terminated (fst (readline f)) \<or> (unterminated (fst (readline f)) \<and> snd (readline f) = [])"
proof (induction f rule: length_induct)
  case (1 f)
  show ?case
  proof (cases f rule: readline_cases)
    case 1
    with "1.prems" show ?thesis by simp
  next
    case (2 cs)
    then show ?thesis by (simp add: terminated_def)
  next
    case (3 cs)
    then show ?thesis by (simp add: terminated_def)
  next
    case (4 cs)
    then show ?thesis by (simp add: terminated_def)
  next
    case (5 c cs)
    show ?thesis
    proof (cases "fst (readline cs) = []")
      case True
      then have "cs = []" by (simp add: readline_empty_iff)
      with 5 show ?thesis by (simp add: unterminated_def)
    next
      case False
      with "1.IH" 5(1)
      have "terminated (fst (readline cs)) \<or>
            (unterminated (fst (readline cs)) \<and> snd (readline cs) = [])"
        by simp
      with 5 show ?thesis
        by (auto simp: terminated_def unterminated_def intro: exI [of _ "c # _"])
    qed
  qed
qed

lemma proper_lines_Cons:
  "proper_lines (l # ls) \<longleftrightarrow> (terminated l \<or> (unterminated l \<and> ls = [])) \<and> proper_lines ls"
  by (cases ls) auto

lemma proper_file_lines: "proper_lines (file_lines f)"
proof (induction f rule: file_lines.induct)
  case (1 f)
  show ?case
  proof (cases "f = []")
    case True
    then show ?thesis by simp
  next
    case False
    then have ne: "fst (readline f) \<noteq> []" by (simp add: readline_empty_iff)
    from readline_shape [OF ne] "1.IH" [OF ne] show ?thesis
      by (auto simp: file_lines_step [OF False] proper_lines_Cons)
  qed
qed

lemma proper_lines_append:
  "proper_lines (xs @ ys) \<Longrightarrow> proper_lines xs \<and> proper_lines ys"
  by (induction xs) (auto simp: proper_lines_Cons)

lemma file_lines_terminated:
  "terminated l \<Longrightarrow> file_lines (l @ g) = l # file_lines g"
  by (subst file_lines.simps) (auto simp: terminated_def readline_terminated)

lemma file_lines_unterminated:
  "unterminated l \<Longrightarrow> file_lines l = [l]"
  by (subst file_lines.simps) (auto simp: unterminated_def readline_unterminated)

lemma file_lines_concat: "proper_lines ls \<Longrightarrow> file_lines (concat ls) = ls"
proof (induction ls)
  case Nil
  then show ?case by simp
next
  case (Cons l ls)
  then show ?case
    using file_lines_terminated [of l "concat ls"] file_lines_unterminated [of l]
    by (auto simp: proper_lines_Cons)
qed

lemma readline_append: "CR \<notin> set f \<Longrightarrow> fst (readline f) @ snd (readline f) = f"
  by (induction f) (auto simp: case_prod_beta)

lemma length_readline_parts: "length (fst (readline f)) + length (snd (readline f)) \<le> length f"
proof (induction f rule: length_induct)
  case (1 f)
  show ?case
  proof (cases f rule: readline_cases)
    case (5 c cs)
    with 1 have "length (fst (readline cs)) + length (snd (readline cs)) \<le> length cs" by simp
    with 5 show ?thesis by simp
  qed simp_all
qed

lemma set_readline_snd: "set (snd (readline f)) \<subseteq> set f"
proof (induction f rule: length_induct)
  case (1 f)
  show ?case
  proof (cases f rule: readline_cases)
    case (5 c cs)
    with 1 have "set (snd (readline cs)) \<subseteq> set cs" by simp
    with 5 show ?thesis by auto
  qed auto
qed

lemma concat_file_lines: "CR \<notin> set f \<Longrightarrow> concat (file_lines f) = f"
proof (induction f rule: file_lines.induct)
  case (1 f)
  show ?case
  proof (cases "f = []")
    case True
    then show ?thesis by simp
  next
    case False
    then have ne: "fst (readline f) \<noteq> []" by (simp add: readline_empty_iff)
    have "CR \<notin> set (snd (readline f))" using set_readline_snd [of f] "1.prems" by auto
    from "1.IH" [OF ne this] readline_append [OF "1.prems"] show ?thesis
      by (simp add: file_lines_step [OF False])
  qed
qed

lemma length_concat_file_lines: "length (concat (file_lines f)) \<le> length f"
proof (induction f rule: file_lines.induct)
  case (1 f)
  show ?case
  proof (cases "f = []")
    case True
    then show ?thesis by simp
  next
    case False
    then have ne: "fst (readline f) \<noteq> []" by (simp add: readline_empty_iff)
    from "1.IH" [OF ne] length_readline_parts [of f] show ?thesis
      by (simp add: file_lines_step [OF False])
  qed
qed

lemma file_lines_not_Nil: "[] \<notin> set (file_lines f)"
proof (induction f rule: file_lines.induct)
  case (1 f)
  show ?case
  proof (cases "f = []")
    case True
    then show ?thesis by simp
  next
    case False
    then have ne: "fst (readline f) \<noteq> []" by (simp add: readline_empty_iff)
    from "1.IH" [OF ne] ne show ?thesis
      by (auto simp: file_lines_step [OF False])
  qed
qed

lemma digit_char_inj: "a < 10 \<Longrightarrow> b < 10 \<Longrightarrow> digit_char a = digit_char b \<Longrightarrow> a = b"
  using of_char_digit_char [of a] of_char_digit_char [of b] by (metis add_left_cancel)

lemma str_nat_inj: "str_nat n = str_nat m \<Longrightarrow> n = m"
proof (induction n arbitrary: m rule: str_nat.induct)
  case (1 n)
  show ?case
  proof (cases "n < 10")
    case True
    show ?thesis
    proof (cases "m < 10")
      case m: True
      with True "1.prems" show ?thesis by (simp add: str_nat_small digit_char_inj)
    next
      case False
      with True "1.prems" str_nat_not_Nil [of "m div 10"] show ?thesis
        by (simp add: str_nat_small str_nat_large)
    qed
  next
    case False
    show ?thesis
    proof (cases "m < 10")
      case True
      with False "1.prems" str_nat_not_Nil [of "n div 10"] show ?thesis
        by (simp add: str_nat_small str_nat_large)
    next
      case m: False
      with False "1.prems" have e: "str_nat (n div 10) = str_nat (m div 10)"
        "digit_char (n mod 10) = digit_char (m mod 10)"
        by (simp_all add: str_nat_large)
      from "1.IH" [OF False e(1)] have "n div 10 = m div 10" .
      moreover from e(2) have "n mod 10 = m mod 10" by (intro digit_char_inj) auto
      ultimately show ?thesis by (metis mod_div_decomp)
    qed
  qed
qed

lemma part_filename_inj: "part_filename i filename = part_filename j filename \<Longrightarrow> i = j"
  by (simp add: part_filename_def str_nat_inj)

lemma part_filename_neq: "part_filename i filename \<noteq> filename"
proof
  assume "part_filename i filename = filename"
  then have "length (part_filename i filename) = length filename" by simp
  then show False by (simp add: part_filename_def)
qed

lemma format_file_size_exact:
  assumes "0 \<le> n" "n < 2 ^ 53"
  shows "format_file_size n = Inr (spec_format n)"
proof -
  from assms have r: "round53 n = n" by (intro round53_exact) auto
  show ?thesis
  proof (cases "n < 1024")
    case True
    with assms(1) show ?thesis by (simp add: format_file_size_small spec_format_def)
  next
    case False
    with assms(2) r format_file_size_large [of n] show ?thesis by simp
  qed
qed

lemma split_loop_done:
  "fst (read_batch 500000 max_size [] 0 f) = [] \<Longrightarrow>
   split_loop filename max_size f part_number part_files fs = (Inr part_files, fs)"
  by (subst split_loop.simps) (simp add: case_prod_beta)

lemma split_loop_step:
  assumes "read_batch 500000 max_size [] 0 f = (ls, f')" "ls \<noteq> []"
    and "format_file_size (sum_len ls) = Inr s"
  shows "split_loop filename max_size f part_number part_files fs =
     split_loop filename max_size f' (part_number + 1)
       (part_files @
          [\<lparr>info_name = part_filename part_number filename, info_size = s,
            info_url = ''/download/'' @ part_filename part_number filename\<rparr>])
       (write_file fs (part_filename part_number filename) (concat ls))"
  using assms
  by (subst split_loop.simps) (simp add: getsize_def write_file_def sum_len_def Let_def)

lemma split_batches_Nil:
  "fst (read_batch 500000 max_size [] 0 f) = [] \<Longrightarrow> split_batches max_size f = []"
  by (subst split_batches.simps) simp

lemma split_batches_Cons:
  "read_batch 500000 max_size [] 0 f = (ls, f') \<Longrightarrow> ls \<noteq> [] \<Longrightarrow>
   split_batches max_size f = ls # split_batches max_size f'"
  by (subst split_batches.simps) simp

lemma read_batch_length_concat:
  assumes "read_batch n max_size [] 0 f = (ls, f')"
  shows "length (concat ls) \<le> length f"
proof -
  from read_batch_lines [OF assms] have "file_lines f = ls @ file_lines f'" by auto
  then have "length (concat ls) \<le> length (concat (file_lines f))" by simp
  with length_concat_file_lines [of f] show ?thesis by simp
qed

lemma split_batches_empty [simp]: "split_batches max_size [] = []"
  by (rule split_batches_Nil) (simp add: read_batch.simps)

lemma concat_split_batches: "concat (split_batches max_size f) = file_lines f"
proof (induction max_size f rule: split_batches.induct)
  case (1 max_size f)
  obtain ls f' where rb: "read_batch 500000 max_size [] 0 f = (ls, f')"
    by (cases "read_batch 500000 max_size [] 0 f")
  show ?case
  proof (cases "ls = []")
    case True
    have "f = []"
    proof (rule ccontr)
      assume "f \<noteq> []"
      from read_batch_progress [OF _ this rb] True show False by simp
    qed
    then show ?thesis by simp
  next
    case False
    from read_batch_lines [OF rb] have "file_lines f = ls @ file_lines f'" by auto
    moreover from "1.IH" rb False have "concat (split_batches max_size f') = file_lines f'"
      by simp
    ultimately show ?thesis by (simp add: split_batches_Cons [OF rb False])
  qed
qed

text \<open>What holds of every batch, by its position.\<close>

lemma split_batches_nth:
  "i < length (split_batches max_size f) \<Longrightarrow>
   split_batches max_size f ! i \<noteq> []
   \<and> length (split_batches max_size f ! i) \<le> 500000
   \<and> (length (split_batches max_size f ! i) = 1
        \<or> sum_len (butlast (split_batches max_size f ! i)) < max_size)
   \<and> (Suc i < length (split_batches max_size f) \<longrightarrow>
        length (split_batches max_size f ! i) = 500000
        \<or> sum_len (split_batches max_size f ! i) \<ge> max_size)"
proof (induction max_size f arbitrary: i rule: split_batches.induct)
  case (1 max_size f)
  obtain ls f' where rb: "read_batch 500000 max_size [] 0 f = (ls, f')"
    by (cases "read_batch 500000 max_size [] 0 f")
  show ?case
  proof (cases "ls = []")
    case True
    with rb "1.prems" show ?thesis by (simp add: split_batches_Nil)
  next
    case False
    note eq = split_batches_Cons [OF rb False]
    show ?thesis
    proof (cases i)
      case 0
      from read_batch_lines [OF rb]
      have p: "length ls \<le> 500000" "length ls = 1 \<or> sum_len (butlast ls) < max_size"
        "f' \<noteq> [] \<longrightarrow> length ls = 500000 \<or> sum_len ls \<ge> max_size"
        using False by auto
      have "f' \<noteq> []" if "Suc 0 < length (split_batches max_size f)"
        using that eq by (cases "f' = []") auto
      with p False 0 show ?thesis by (simp add: eq)
    next
      case (Suc j)
      with "1.prems" eq have "j < length (split_batches max_size f')" by simp
      with "1.IH" [of j] rb False have
        "split_batches max_size f' ! j \<noteq> []
         \<and> length (split_batches max_size f' ! j) \<le> 500000
         \<and> (length (split_batches max_size f' ! j) = 1
              \<or> sum_len (butlast (split_batches max_size f' ! j)) < max_size)
         \<and> (Suc j < length (split_batches max_size f') \<longrightarrow>
              length (split_batches max_size f' ! j) = 500000
              \<or> sum_len (split_batches max_size f' ! j) \<ge> max_size)"
        by simp
      with Suc show ?thesis by (simp add: eq)
    qed
  qed
qed

lemma proper_concat_elems:
  "proper_lines (concat bs) \<Longrightarrow> b \<in> set bs \<Longrightarrow> proper_lines b"
proof (induction bs)
  case Nil
  then show ?case by simp
next
  case (Cons a bs)
  then show ?case using proper_lines_append [of a "concat bs"] by auto
qed

lemma split_batches_proper: "b \<in> set (split_batches max_size f) \<Longrightarrow> proper_lines b"
  using proper_concat_elems [of "split_batches max_size f" b] proper_file_lines [of f]
  by (simp add: concat_split_batches)

lemma file_lines_batch:
  "b \<in> set (split_batches max_size f) \<Longrightarrow> file_lines (concat b) = b"
  by (simp add: file_lines_concat split_batches_proper)

lemma length_concat_elem:
  "b \<in> set bs \<Longrightarrow> length (concat b) \<le> length (concat (concat bs))"
  by (induction bs) auto

lemma length_concat_batch:
  "b \<in> set (split_batches max_size f) \<Longrightarrow> length (concat b) \<le> length f"
proof -
  assume "b \<in> set (split_batches max_size f)"
  then have "length (concat b) \<le> length (concat (concat (split_batches max_size f)))"
    by (rule length_concat_elem)
  with length_concat_file_lines [of f] show ?thesis
    by (simp add: concat_split_batches)
qed

lemma map_upt_Suc_shift: "map g [0..<Suc n] = g 0 # map (\<lambda>i. g (Suc i)) [0..<n]"
  by (simp add: map_upt_Suc del: upt_Suc)

text \<open>
  The splitting loop in one step: the descriptions appended, the part files written,
  and every other file left as it was.
\<close>

lemma split_loop_char:
  assumes "length f < 2 ^ 53"
  shows "\<exists>fs'. split_loop filename max_size f pn pfs fs =
           (Inr (pfs @ map (\<lambda>i. part_info filename (pn + i) (split_batches max_size f ! i))
                        [0..<length (split_batches max_size f)]), fs')
       \<and> (\<forall>i<length (split_batches max_size f).
            fs' (part_filename (pn + i) filename) =
              Some \<lparr>content = concat (split_batches max_size f ! i), readable = True\<rparr>)
       \<and> (\<forall>name. (\<forall>i<length (split_batches max_size f). name \<noteq> part_filename (pn + i) filename)
            \<longrightarrow> fs' name = fs name)"
  using assms
proof (induction max_size f arbitrary: pn pfs fs rule: split_batches.induct)
  case (1 max_size f)
  obtain ls f' where rb: "read_batch 500000 max_size [] 0 f = (ls, f')"
    by (cases "read_batch 500000 max_size [] 0 f")
  show ?case
  proof (cases "ls = []")
    case True
    with rb show ?thesis
      by (simp add: split_batches_Nil split_loop_done)
  next
    case False
    note eq = split_batches_Cons [OF rb False]
    let ?bs = "split_batches max_size f'"
    let ?name = "part_filename pn filename"
    let ?fs1 = "write_file fs ?name (concat ls)"
    have "length (concat ls) \<le> length f" using rb by (rule read_batch_length_concat)
    with "1.prems" have "sum_len ls < 2 ^ 53" "0 \<le> sum_len ls"
      by (simp_all add: sum_len_def)
    then have fmt: "format_file_size (sum_len ls) = Inr (spec_format (sum_len ls))"
      by (intro format_file_size_exact) auto
    have "length f' \<le> length f" using length_read_batch [OF rb] by simp
    with "1.prems" have f': "length f' < 2 ^ 53" by simp
    note IH = "1.IH" [unfolded rb fst_conv snd_conv, OF False f']
    from IH [where pn = "pn + 1" and pfs = "pfs @ [part_info filename pn ls]" and fs = ?fs1]
    obtain fs' where
      r: "split_loop filename max_size f' (pn + 1) (pfs @ [part_info filename pn ls]) ?fs1 =
           (Inr ((pfs @ [part_info filename pn ls]) @
                 map (\<lambda>i. part_info filename (pn + 1 + i) (?bs ! i)) [0..<length ?bs]), fs')"
      and w: "\<And>i. i < length ?bs \<Longrightarrow> fs' (part_filename (pn + 1 + i) filename) =
              Some \<lparr>content = concat (?bs ! i), readable = True\<rparr>"
      and o: "\<And>name. (\<forall>i<length ?bs. name \<noteq> part_filename (pn + 1 + i) filename)
              \<Longrightarrow> fs' name = ?fs1 name"
      by auto
    have step: "split_loop filename max_size f pn pfs fs =
        split_loop filename max_size f' (pn + 1) (pfs @ [part_info filename pn ls]) ?fs1"
      using split_loop_step [OF rb False fmt] by (simp add: part_info_def)
    have res: "split_loop filename max_size f pn pfs fs =
        (Inr (pfs @ map (\<lambda>i. part_info filename (pn + i) ((ls # ?bs) ! i))
                [0..<length (ls # ?bs)]), fs')"
      unfolding step r by (simp add: map_upt_Suc_shift del: upt_Suc)
    have first: "fs' ?name = Some \<lparr>content = concat ls, readable = True\<rparr>"
    proof -
      have "\<forall>i<length ?bs. ?name \<noteq> part_filename (pn + 1 + i) filename"
        using part_filename_inj [of pn filename] by fastforce
      from o [OF this] show ?thesis by (simp add: write_file_def)
    qed
    have written: "fs' (part_filename (pn + i) filename) =
        Some \<lparr>content = concat ((ls # ?bs) ! i), readable = True\<rparr>"
      if "i < length (ls # ?bs)" for i
    proof (cases i)
      case 0
      with first show ?thesis by simp
    next
      case (Suc j)
      with that w [of j] show ?thesis by simp
    qed
    have others: "fs' name = fs name"
      if "\<forall>i<length (ls # ?bs). name \<noteq> part_filename (pn + i) filename" for name
    proof -
      from that have "name \<noteq> ?name" by force
      moreover from that have "\<forall>i<length ?bs. name \<noteq> part_filename (pn + 1 + i) filename"
        by force
      ultimately show ?thesis using o [of name] by (simp add: write_file_def)
    qed
    from res written others show ?thesis
      unfolding eq by blast
  qed
qed

lemma split_branch:
  assumes "fs filename = Some file" and "readable file"
    and "int (length (content file)) > max_size_mb * 1024 * 1024"
    and "length (content file) < 2 ^ 53"
  shows "\<exists>fs'. split_file_for_download fs filename max_size_mb =
           (Inr (map (\<lambda>i. part_info filename (Suc i)
                   (split_batches (max_size_mb * 1024 * 1024) (content file) ! i))
                 [0..<length (split_batches (max_size_mb * 1024 * 1024) (content file))]), fs')
       \<and> (\<forall>i<length (split_batches (max_size_mb * 1024 * 1024) (content file)).
            fs' (part_filename (Suc i) filename) =
              Some \<lparr>content = concat (split_batches (max_size_mb * 1024 * 1024) (content file) ! i),
                    readable = True\<rparr>)
       \<and> (\<forall>name. (\<forall>i<length (split_batches (max_size_mb * 1024 * 1024) (content file)).
                     name \<noteq> part_filename (Suc i) filename)
            \<longrightarrow> fs' name = fs name)"
proof -
  have "split_file_for_download fs filename max_size_mb =
      split_loop filename (max_size_mb * 1024 * 1024) (content file) 1 [] fs"
    using assms(1-3) by (simp add: split_file_for_download_def exists_def getsize_def Let_def)
  with split_loop_char [OF assms(4), of filename "max_size_mb * 1024 * 1024" 1 "[]" fs]
  show ?thesis by simp
qed

lemma split_branch_parts:
  assumes "fs filename = Some file" and "readable file"
    and "int (length (content file)) > max_size_mb * 1024 * 1024"
    and "length (content file) < 2 ^ 53"
  shows "\<exists>parts fs'.
    split_file_for_download fs filename max_size_mb = (Inr parts, fs')
    \<and> length parts = length (split_batches (max_size_mb * 1024 * 1024) (content file))
    \<and> (\<forall>i<length parts. info_name (parts ! i) = part_filename (Suc i) filename)
    \<and> (\<forall>i<length parts. fs' (info_name (parts ! i)) =
          Some \<lparr>content = concat (split_batches (max_size_mb * 1024 * 1024) (content file) ! i),
                readable = True\<rparr>)
    \<and> (\<forall>name. name \<notin> info_name ` set parts \<longrightarrow> fs' name = fs name)"
proof -
  let ?bs = "split_batches (max_size_mb * 1024 * 1024) (content file)"
  let ?parts = "map (\<lambda>i. part_info filename (Suc i) (?bs ! i)) [0..<length ?bs]"
  from split_branch [where fs = fs and filename = filename, OF assms] obtain fs' where
    r: "split_file_for_download fs filename max_size_mb = (Inr ?parts, fs')"
    and w: "\<And>i. i < length ?bs \<Longrightarrow> fs' (part_filename (Suc i) filename) =
              Some \<lparr>content = concat (?bs ! i), readable = True\<rparr>"
    and o: "\<And>name. (\<forall>i<length ?bs. name \<noteq> part_filename (Suc i) filename)
              \<Longrightarrow> fs' name = fs name"
    by blast
  have n: "info_name (?parts ! i) = part_filename (Suc i) filename" if "i < length ?parts" for i
    using that by (simp add: part_info_def)
  have "fs' name = fs name" if "name \<notin> info_name ` set ?parts" for name
  proof (rule o, intro allI impI)
    fix i assume i: "i < length ?bs"
    then have "?parts ! i \<in> set ?parts" by (intro nth_mem) simp
    with that n [of i] i show "name \<noteq> part_filename (Suc i) filename" by force
  qed
  moreover have "\<forall>i<length ?parts. fs' (info_name (?parts ! i)) =
      Some \<lparr>content = concat (?bs ! i), readable = True\<rparr>"
    using n w by simp
  moreover have "length ?parts = length ?bs" by simp
  ultimately show ?thesis using r n by blast
qed

lemma map_nth_fun: "map (\<lambda>i. g (xs ! i)) [0..<length xs] = map g xs"
  by (rule nth_equalityI) auto

text \<open>
  C1. For a readable artifact whose size exceeds the limit (and is below \<open>2^53\<close>
  bytes), \<open>split_file_for_download\<close> returns part descriptions whose files, read in the
  order returned, hold exactly the lines of the source: no line is lost, repeated, cut
  or shared between two parts. When the source has no carriage return, as every artifact
  written by \<open>generate_to_file\<close> from digit strings, the contents of the parts
  concatenated are the bytes of the source. The source file itself is left as it was.
\<close>

theorem split_round_trip:
  assumes "fs filename = Some file" and "readable file"
    and "int (length (content file)) > max_size_mb * 1024 * 1024"
    and "length (content file) < 2 ^ 53"
  shows "\<exists>parts fs'. split_file_for_download fs filename max_size_mb = (Inr parts, fs')
    \<and> concat (map (\<lambda>p. file_lines (content (the (fs' (info_name p))))) parts)
        = file_lines (content file)
    \<and> (CR \<notin> set (content file) \<longrightarrow>
          concat (map (\<lambda>p. content (the (fs' (info_name p)))) parts) = content file)
    \<and> fs' filename = Some file"
proof -
  let ?bs = "split_batches (max_size_mb * 1024 * 1024) (content file)"
  from split_branch_parts [where fs = fs and filename = filename, OF assms]
  obtain parts fs' where
    r: "split_file_for_download fs filename max_size_mb = (Inr parts, fs')"
    and l: "length parts = length ?bs"
    and n: "\<And>i. i < length parts \<Longrightarrow> info_name (parts ! i) = part_filename (Suc i) filename"
    and w: "\<And>i. i < length parts \<Longrightarrow> fs' (info_name (parts ! i)) =
              Some \<lparr>content = concat (?bs ! i), readable = True\<rparr>"
    and o: "\<And>name. name \<notin> info_name ` set parts \<Longrightarrow> fs' name = fs name"
    by blast
  have c: "map (\<lambda>p. content (the (fs' (info_name p)))) parts = map concat ?bs"
    using l w by (rule_tac nth_equalityI) simp_all
  have "map (\<lambda>p. file_lines (content (the (fs' (info_name p))))) parts = ?bs"
  proof (rule nth_equalityI)
    show "length (map (\<lambda>p. file_lines (content (the (fs' (info_name p))))) parts) = length ?bs"
      using l by simp
  next
    fix i assume "i < length (map (\<lambda>p. file_lines (content (the (fs' (info_name p))))) parts)"
    then have i: "i < length parts" by simp
    with l have "?bs ! i \<in> set ?bs" by simp
    then have "file_lines (concat (?bs ! i)) = ?bs ! i" by (rule file_lines_batch)
    with i w [OF i] show "map (\<lambda>p. file_lines (content (the (fs' (info_name p))))) parts ! i = ?bs ! i"
      by simp
  qed
  then have lines: "concat (map (\<lambda>p. file_lines (content (the (fs' (info_name p))))) parts)
      = file_lines (content file)"
    by (simp add: concat_split_batches)
  have bytes: "concat (map (\<lambda>p. content (the (fs' (info_name p)))) parts) = content file"
    if "CR \<notin> set (content file)"
  proof -
    have "concat (map concat bs) = concat (concat bs)" for bs :: "string list list"
      by (induction bs) simp_all
    with that show ?thesis
      unfolding c by (simp add: concat_split_batches concat_file_lines)
  qed
  have "filename \<notin> info_name ` set parts"
  proof
    assume "filename \<in> info_name ` set parts"
    then obtain i where "i < length parts" "info_name (parts ! i) = filename"
      by (auto simp: in_set_conv_nth)
    with n [of i] part_filename_neq [of "Suc i" filename] show False by simp
  qed
  then have "fs' filename = Some file" using o assms(1) by simp
  with r lines bytes show ?thesis by blast
qed

lemma sum_len_butlast_last:
  "b \<noteq> [] \<Longrightarrow> sum_len b = sum_len (butlast b) + int (length (last b))"
proof -
  assume "b \<noteq> []"
  then have "b = butlast b @ [last b]" by simp
  then have "concat b = concat (butlast b) @ last b"
    by (metis concat.simps(1) concat.simps(2) concat_append append_Nil2)
  then show ?thesis by (simp add: sum_len_def)
qed

text \<open>
  C2. Every part written by the splitting branch has at most 500,000 lines; the size
  check comes after each whole line, so the lines before the last one of a part stay
  below the limit in bytes, and with a non-negative limit the part exceeds it by at most
  the length of its last line. A part followed by another one was closed by one of the
  two bounds: it has 500,000 lines or has reached the limit.
\<close>

theorem split_partition_bounds:
  assumes "fs filename = Some file" and "readable file"
    and "int (length (content file)) > max_size_mb * 1024 * 1024"
    and "length (content file) < 2 ^ 53"
  shows "\<exists>parts fs'. split_file_for_download fs filename max_size_mb = (Inr parts, fs')
    \<and> (\<forall>i<length parts.
          length (file_lines (content (the (fs' (info_name (parts ! i)))))) \<le> 500000
        \<and> (length (file_lines (content (the (fs' (info_name (parts ! i)))))) = 1
            \<or> sum_len (butlast (file_lines (content (the (fs' (info_name (parts ! i)))))))
                < max_size_mb * 1024 * 1024)
        \<and> (0 \<le> max_size_mb \<longrightarrow>
              getsize fs' (info_name (parts ! i)) \<le> max_size_mb * 1024 * 1024
                + int (length (last (file_lines (content (the (fs' (info_name (parts ! i)))))))))
        \<and> (Suc i < length parts \<longrightarrow>
              length (file_lines (content (the (fs' (info_name (parts ! i)))))) = 500000
              \<or> getsize fs' (info_name (parts ! i)) \<ge> max_size_mb * 1024 * 1024))"
proof -
  let ?ms = "max_size_mb * 1024 * 1024"
  let ?bs = "split_batches ?ms (content file)"
  from split_branch_parts [where fs = fs and filename = filename, OF assms]
  obtain parts fs' where
    r: "split_file_for_download fs filename max_size_mb = (Inr parts, fs')"
    and l: "length parts = length ?bs"
    and w: "\<And>i. i < length parts \<Longrightarrow> fs' (info_name (parts ! i)) =
              Some \<lparr>content = concat (?bs ! i), readable = True\<rparr>"
    by blast
  have "length (file_lines (content (the (fs' (info_name (parts ! i)))))) \<le> 500000
        \<and> (length (file_lines (content (the (fs' (info_name (parts ! i)))))) = 1
            \<or> sum_len (butlast (file_lines (content (the (fs' (info_name (parts ! i)))))))
                < ?ms)
        \<and> (0 \<le> max_size_mb \<longrightarrow>
              getsize fs' (info_name (parts ! i)) \<le> ?ms
                + int (length (last (file_lines (content (the (fs' (info_name (parts ! i)))))))))
        \<and> (Suc i < length parts \<longrightarrow>
              length (file_lines (content (the (fs' (info_name (parts ! i)))))) = 500000
              \<or> getsize fs' (info_name (parts ! i)) \<ge> ?ms)"
    if i: "i < length parts" for i
  proof -
    from i l have m: "?bs ! i \<in> set ?bs" by simp
    have fl: "file_lines (content (the (fs' (info_name (parts ! i))))) = ?bs ! i"
      using w [OF i] file_lines_batch [OF m] by simp
    have gs: "getsize fs' (info_name (parts ! i)) = sum_len (?bs ! i)"
      using w [OF i] by (simp add: getsize_def sum_len_def)
    from i l have "i < length ?bs" by simp
    from split_batches_nth [OF this]
    have p: "?bs ! i \<noteq> []" "length (?bs ! i) \<le> 500000"
      "length (?bs ! i) = 1 \<or> sum_len (butlast (?bs ! i)) < ?ms"
      "Suc i < length ?bs \<longrightarrow> length (?bs ! i) = 500000 \<or> sum_len (?bs ! i) \<ge> ?ms"
      by blast+
    have "sum_len (?bs ! i) \<le> ?ms + int (length (last (?bs ! i)))" if "0 \<le> max_size_mb"
    proof -
      from p(3) show ?thesis
      proof
        assume "length (?bs ! i) = 1"
        then have "butlast (?bs ! i) = []" by (cases "?bs ! i") auto
        with sum_len_butlast_last [OF p(1)] that show ?thesis by (simp add: sum_len_def)
      next
        assume "sum_len (butlast (?bs ! i)) < ?ms"
        with sum_len_butlast_last [OF p(1)] show ?thesis by simp
      qed
    qed
    with p l show ?thesis unfolding fl gs by simp
  qed
  with r show ?thesis by blast
qed

text \<open>
  C10. The splitting branch writes no empty part file: every part returned is a file
  with at least one line, and no other file of the directory is written.
\<close>

theorem split_no_empty_partition:
  assumes "fs filename = Some file" and "readable file"
    and "int (length (content file)) > max_size_mb * 1024 * 1024"
    and "length (content file) < 2 ^ 53"
  shows "\<exists>parts fs'. split_file_for_download fs filename max_size_mb = (Inr parts, fs')
    \<and> (\<forall>p \<in> set parts. \<exists>part. fs' (info_name p) = Some part
          \<and> content part \<noteq> [] \<and> file_lines (content part) \<noteq> [])
    \<and> (\<forall>name. fs' name \<noteq> fs name \<longrightarrow> name \<in> info_name ` set parts)"
proof -
  let ?ms = "max_size_mb * 1024 * 1024"
  let ?bs = "split_batches ?ms (content file)"
  from split_branch_parts [where fs = fs and filename = filename, OF assms]
  obtain parts fs' where
    r: "split_file_for_download fs filename max_size_mb = (Inr parts, fs')"
    and l: "length parts = length ?bs"
    and w: "\<And>i. i < length parts \<Longrightarrow> fs' (info_name (parts ! i)) =
              Some \<lparr>content = concat (?bs ! i), readable = True\<rparr>"
    and o: "\<And>name. name \<notin> info_name ` set parts \<Longrightarrow> fs' name = fs name"
    by blast
  have "\<exists>part. fs' (info_name p) = Some part \<and> content part \<noteq> []
          \<and> file_lines (content part) \<noteq> []"
    if "p \<in> set parts" for p
  proof -
    from that obtain i where i: "i < length parts" "p = parts ! i"
      by (auto simp: in_set_conv_nth)
    with l have m: "?bs ! i \<in> set ?bs" by simp
    from i l have "i < length ?bs" by simp
    from split_batches_nth [OF this] have ne: "?bs ! i \<noteq> []" by blast
    with file_lines_batch [OF m] have fl: "file_lines (concat (?bs ! i)) \<noteq> []" by simp
    have "concat (?bs ! i) \<noteq> []"
    proof
      assume "concat (?bs ! i) = []"
      with fl show False by (simp only: file_lines_Nil)
    qed
    with fl show ?thesis using w [OF i(1)] i(2) by simp
  qed
  with r o show ?thesis by blast
qed

lemma example_split:
  "split_file_for_download example_fs ''f.txt'' 0 = (Inr example_parts, example_fs')"
proof -
  have r1: "read_batch 500000 0 [] 0 example_content =
      ([] @ [[CHR ''a'', LF]], [CHR ''b'', CHR ''b'', LF, CHR ''c''])"
    by (rule read_batch_full) (simp_all add: example_content_def LF_def CR_def)
  have r2: "read_batch 500000 0 [] 0 [CHR ''b'', CHR ''b'', LF, CHR ''c''] =
      ([] @ [[CHR ''b'', CHR ''b'', LF]], ''c'')"
    by (rule read_batch_full) (simp_all add: LF_def CR_def)
  have r3: "read_batch 500000 0 [] 0 ''c'' = ([] @ [''c''], [])"
    by (rule read_batch_full) (simp_all add: LF_def CR_def)
  have r4: "fst (read_batch 500000 0 [] 0 []) = []"
    by (simp add: read_batch_eof)
  have f: "format_file_size 2 = Inr ''2.00 B''" "format_file_size 3 = Inr ''3.00 B''"
    "format_file_size 1 = Inr ''1.00 B''"
    by code_simp+
  have n: "part_filename 1 ''f.txt'' = ''part_1_f.txt''"
    "part_filename 2 ''f.txt'' = ''part_2_f.txt''"
    "part_filename 3 ''f.txt'' = ''part_3_f.txt''"
    "part_filename (Suc 0) ''f.txt'' = ''part_1_f.txt''"
    "part_filename (Suc (Suc 0)) ''f.txt'' = ''part_2_f.txt''"
    "part_filename (Suc (Suc (Suc 0))) ''f.txt'' = ''part_3_f.txt''"
    by (simp_all add: part_filename_def str_nat_small digit_char_def char_of_eq_iff)
  have "split_file_for_download example_fs ''f.txt'' 0 =
      split_loop ''f.txt'' 0 example_content 1 [] example_fs"
    by (simp add: split_file_for_download_def exists_def getsize_def example_fs_def
        write_file_def example_content_def)
  also have "\<dots> = split_loop ''f.txt'' 0 [CHR ''b'', CHR ''b'', LF, CHR ''c''] (1 + 1)
      [example_parts ! 0] (write_file example_fs ''part_1_f.txt'' [CHR ''a'', LF])"
    using split_loop_step [OF r1, of "''2.00 B''" "''f.txt''" 1 "[]" example_fs]
    by (simp add: sum_len_def f n example_parts_def)
  also have "\<dots> = split_loop ''f.txt'' 0 ''c'' (1 + 1 + 1) [example_parts ! 0, example_parts ! 1]
      (write_file (write_file example_fs ''part_1_f.txt'' [CHR ''a'', LF])
         ''part_2_f.txt'' [CHR ''b'', CHR ''b'', LF])"
    using split_loop_step [OF r2, of "''3.00 B''" "''f.txt''" "1 + 1" "[example_parts ! 0]"
        "write_file example_fs ''part_1_f.txt'' [CHR ''a'', LF]"]
    by (simp add: sum_len_def f n example_parts_def)
  also have "\<dots> = split_loop ''f.txt'' 0 [] (1 + 1 + 1 + 1) example_parts example_fs'"
    using split_loop_step [OF r3, of "''1.00 B''" "''f.txt''" "1 + 1 + 1"
        "[example_parts ! 0, example_parts ! 1]"
        "write_file (write_file example_fs ''part_1_f.txt'' [CHR ''a'', LF])
           ''part_2_f.txt'' [CHR ''b'', CHR ''b'', LF]"]
    by (simp add: sum_len_def f n example_parts_def example_fs'_def)
  also have "\<dots> = (Inr example_parts, example_fs')"
    using r4 by (rule split_loop_done)
  finally show ?thesis .
qed

lemma big_content_length: "length big_content = 1200000"
  by (simp add: big_content_def length_concat sum_list_replicate)

lemma big_content_no_CR: "CR \<notin> set big_content"
  by (simp add: big_content_def CR_def LF_def)

lemma example_fs_file:
  "example_fs ''f.txt'' = Some \<lparr>content = example_content, readable = True\<rparr>"
  by (simp add: example_fs_def write_file_def)

lemma example_fs'_files:
  "example_fs' ''part_1_f.txt'' = Some \<lparr>content = [CHR ''a'', LF], readable = True\<rparr>"
  "example_fs' ''part_2_f.txt'' = Some \<lparr>content = [CHR ''b'', CHR ''b'', LF], readable = True\<rparr>"
  "example_fs' ''part_3_f.txt'' = Some \<lparr>content = ''c'', readable = True\<rparr>"
  by (simp_all add: example_fs'_def write_file_def)

lemma example_hyps:
  "readable \<lparr>content = example_content, readable = True\<rparr>"
  "int (length (content \<lparr>content = example_content, readable = True\<rparr>)) > 0 * 1024 * 1024"
  "length (content \<lparr>content = example_content, readable = True\<rparr>) < 2 ^ 53"
  by (simp_all add: example_content_def)

lemma big_fs_file:
  "big_fs ''numbers.txt'' = Some \<lparr>content = big_content, readable = True\<rparr>"
  by (simp add: big_fs_def write_file_def)

lemma big_hyps:
  "readable \<lparr>content = big_content, readable = True\<rparr>"
  "int (length (content \<lparr>content = big_content, readable = True\<rparr>)) > 1 * 1024 * 1024"
  "length (content \<lparr>content = big_content, readable = True\<rparr>) < 2 ^ 53"
  by (simp_all add: big_content_length)

theorem split_round_trip_witness:
  "\<exists>parts fs'. split_file_for_download big_fs ''numbers.txt'' 1 = (Inr parts, fs')
    \<and> concat (map (\<lambda>p. file_lines (content (the (fs' (info_name p))))) parts)
        = file_lines big_content
    \<and> concat (map (\<lambda>p. content (the (fs' (info_name p)))) parts) = big_content
    \<and> fs' ''numbers.txt'' = Some \<lparr>content = big_content, readable = True\<rparr>"
  using split_round_trip [where fs = big_fs and filename = "''numbers.txt''"
      and max_size_mb = 1, OF big_fs_file big_hyps] big_content_no_CR
  by simp

theorem split_partition_bounds_witness:
  "split_file_for_download example_fs ''f.txt'' 0 = (Inr example_parts, example_fs')
   \<and> file_lines (content (the (example_fs' ''part_2_f.txt''))) = [[CHR ''b'', CHR ''b'', LF]]
   \<and> length (file_lines (content (the (example_fs' ''part_2_f.txt'')))) \<le> 500000
   \<and> getsize example_fs' ''part_2_f.txt'' = 3
   \<and> getsize example_fs' ''part_2_f.txt''
        \<le> 0 * 1024 * 1024
          + int (length (last (file_lines (content (the (example_fs' ''part_2_f.txt''))))))
   \<and> getsize example_fs' ''part_2_f.txt'' \<ge> 0 * 1024 * 1024"
proof -
  from split_partition_bounds [where fs = example_fs and filename = "''f.txt''"
      and max_size_mb = 0, OF example_fs_file example_hyps]
  obtain parts fs' where r: "split_file_for_download example_fs ''f.txt'' 0 = (Inr parts, fs')"
    and b: "\<forall>i<length parts.
          length (file_lines (content (the (fs' (info_name (parts ! i)))))) \<le> 500000
        \<and> (length (file_lines (content (the (fs' (info_name (parts ! i)))))) = 1
            \<or> sum_len (butlast (file_lines (content (the (fs' (info_name (parts ! i)))))))
                < 0 * 1024 * 1024)
        \<and> (0 \<le> (0::int) \<longrightarrow>
              getsize fs' (info_name (parts ! i)) \<le> 0 * 1024 * 1024
                + int (length (last (file_lines (content (the (fs' (info_name (parts ! i)))))))))
        \<and> (Suc i < length parts \<longrightarrow>
              length (file_lines (content (the (fs' (info_name (parts ! i)))))) = 500000
              \<or> getsize fs' (info_name (parts ! i)) \<ge> 0 * 1024 * 1024)"
    by blast
  from r have e: "parts = example_parts" "fs' = example_fs'" by (simp_all add: example_split)
  have i: "1 < length example_parts" "Suc 1 < length example_parts"
    "info_name (example_parts ! 1) = ''part_2_f.txt''"
    by (simp_all add: example_parts_def)
  have fl: "file_lines [CHR ''b'', CHR ''b'', LF] = [[CHR ''b'', CHR ''b'', LF]]"
    using file_lines_terminated [of "[CHR ''b'', CHR ''b'', LF]" "[]"]
    by (simp add: terminated_def LF_def CR_def)
  from b [unfolded e, rule_format, OF i(1)] i fl show ?thesis
    by (simp add: example_split example_fs'_files getsize_def)
qed

theorem split_no_empty_partition_witness:
  "split_file_for_download example_fs ''f.txt'' 0 = (Inr example_parts, example_fs')
   \<and> info_name (example_parts ! 2) = ''part_3_f.txt''
   \<and> (\<exists>part. example_fs' ''part_3_f.txt'' = Some part
         \<and> content part \<noteq> [] \<and> file_lines (content part) \<noteq> [])
   \<and> example_fs' ''f.txt'' = example_fs ''f.txt''"
proof -
  from split_no_empty_partition [where fs = example_fs and filename = "''f.txt''"
      and max_size_mb = 0, OF example_fs_file example_hyps]
  obtain parts fs' where r: "split_file_for_download example_fs ''f.txt'' 0 = (Inr parts, fs')"
    and b: "\<forall>p \<in> set parts. \<exists>part. fs' (info_name p) = Some part
          \<and> content part \<noteq> [] \<and> file_lines (content part) \<noteq> []"
    and o: "\<forall>name. fs' name \<noteq> example_fs name \<longrightarrow> name \<in> info_name ` set parts"
    by blast
  from r have e: "parts = example_parts" "fs' = example_fs'" by (simp_all add: example_split)
  have m: "example_parts ! 2 \<in> set example_parts"
    "info_name (example_parts ! 2) = ''part_3_f.txt''"
    "''f.txt'' \<notin> info_name ` set example_parts"
    by (simp_all add: example_parts_def)
  from b [unfolded e, rule_format, OF m(1)] o [unfolded e, rule_format, of "''f.txt''"] m
  show ?thesis
    by (auto simp: example_split)
qed

lemma format_file_size_0: "format_file_size 0 = Inr ''0.00 B''"
  by code_simp

text \<open>
  C7. For a name with no file in the download directory, \<open>split_file_for_download\<close>
  returns the empty list as a normal result and changes nothing. When the file exists,
  exceeds the limit and cannot be opened for reading, the error of \<open>open\<close> reaches the
  caller and nothing is written; when it is within the limit (and below \<open>2^53\<close>
  bytes), its description is returned without opening it.
\<close>

theorem split_unopenable_file:
  "(fs filename = None \<longrightarrow> split_file_for_download fs filename max_size_mb = (Inr [], fs))
   \<and> (\<forall>file. fs filename = Some file \<and> \<not> readable file
         \<and> int (length (content file)) > max_size_mb * 1024 * 1024
       \<longrightarrow> split_file_for_download fs filename max_size_mb = (Inl PermissionError, fs))
   \<and> (\<forall>file. fs filename = Some file \<and> \<not> readable file
         \<and> int (length (content file)) \<le> max_size_mb * 1024 * 1024
         \<and> length (content file) < 2 ^ 53
       \<longrightarrow> split_file_for_download fs filename max_size_mb =
             (Inr [\<lparr>info_name = filename,
                    info_size = spec_format (int (length (content file))),
                    info_url = ''/download/'' @ filename\<rparr>], fs))"
proof -
  have a: "split_file_for_download fs filename max_size_mb = (Inr [], fs)"
    if "fs filename = None"
    using that by (simp add: split_file_for_download_def exists_def)
  have b: "split_file_for_download fs filename max_size_mb = (Inl PermissionError, fs)"
    if "fs filename = Some entry" "\<not> readable entry"
      "int (length (content entry)) > max_size_mb * 1024 * 1024" for entry
    using that by (simp add: split_file_for_download_def exists_def getsize_def Let_def)
  have c: "split_file_for_download fs filename max_size_mb =
             (Inr [\<lparr>info_name = filename,
                    info_size = spec_format (int (length (content entry))),
                    info_url = ''/download/'' @ filename\<rparr>], fs)"
    if "fs filename = Some entry" "int (length (content entry)) \<le> max_size_mb * 1024 * 1024"
      "length (content entry) < 2 ^ 53" for entry
  proof -
    from that(3) have "format_file_size (int (length (content entry)))
        = Inr (spec_format (int (length (content entry))))"
      by (intro format_file_size_exact) auto
    with that(1,2) show ?thesis
      by (simp add: split_file_for_download_def exists_def getsize_def Let_def)
  qed
  from a b c show ?thesis by blast
qed

theorem split_unopenable_file_witness:
  "Map.empty ''missing.txt'' = (None :: stored_file option)
   \<and> split_file_for_download Map.empty ''missing.txt'' 20 = (Inr [], Map.empty)
   \<and> split_file_for_download locked_fs ''locked.txt'' 0 = (Inl PermissionError, locked_fs)
   \<and> split_file_for_download locked_fs ''locked.txt'' 20 =
        (Inr [\<lparr>info_name = ''locked.txt'', info_size = ''2.00 B'',
               info_url = ''/download/locked.txt''\<rparr>], locked_fs)"
proof -
  have f: "locked_fs ''locked.txt'' = Some \<lparr>content = ''12'', readable = False\<rparr>"
    by (simp add: locked_fs_def)
  have s: "spec_format 2 = ''2.00 B''" by code_simp
  have 1: "split_file_for_download Map.empty ''missing.txt'' 20 = (Inr [], Map.empty)"
    using split_unopenable_file [of Map.empty "''missing.txt''" 20] by simp
  have 2: "split_file_for_download locked_fs ''locked.txt'' 0 = (Inl PermissionError, locked_fs)"
    using split_unopenable_file [of locked_fs "''locked.txt''" 0] f by simp
  have 3: "split_file_for_download locked_fs ''locked.txt'' 20 =
        (Inr [\<lparr>info_name = ''locked.txt'', info_size = ''2.00 B'',
               info_url = ''/download/locked.txt''\<rparr>], locked_fs)"
    using split_unopenable_file [of locked_fs "''locked.txt''" 20] f s by simp
  from 1 2 3 show ?thesis by simp
qed

theorem split_missing_file_counterexample:
  "split_file_for_download Map.empty ''missing.txt'' 20 = (Inr [], Map.empty)"
  by (simp add: split_file_for_download_def exists_def)

text \<open>
  C8. For an artifact with zero lines (a file of zero bytes) and a non-negative limit,
  \<open>split_file_for_download\<close> returns one part, the description of the file itself with
  the size \<open>0.00 B\<close>, writes nothing and raises no error. Only under a negative limit,
  where the splitting branch runs, does a readable empty file give zero parts.
\<close>

theorem split_empty_file:
  "fs filename = Some file \<and> content file = [] \<longrightarrow>
     (0 \<le> max_size_mb \<longrightarrow>
        split_file_for_download fs filename max_size_mb =
          (Inr [\<lparr>info_name = filename, info_size = ''0.00 B'',
                 info_url = ''/download/'' @ filename\<rparr>], fs))
     \<and> (max_size_mb < 0 \<and> readable file \<longrightarrow>
        split_file_for_download fs filename max_size_mb = (Inr [], fs))"
proof (intro impI conjI)
  assume a: "fs filename = Some file \<and> content file = []" and "0 \<le> max_size_mb"
  then show "split_file_for_download fs filename max_size_mb =
          (Inr [\<lparr>info_name = filename, info_size = ''0.00 B'',
                 info_url = ''/download/'' @ filename\<rparr>], fs)"
    by (simp add: split_file_for_download_def exists_def getsize_def format_file_size_0)
next
  assume a: "fs filename = Some file \<and> content file = []"
    and b: "max_size_mb < 0 \<and> readable file"
  have "fst (read_batch 500000 (max_size_mb * 1024 * 1024) [] 0 []) = []"
    by (simp add: read_batch_eof)
  then have "split_loop filename (max_size_mb * 1024 * 1024) [] 1 [] fs = (Inr [], fs)"
    by (rule split_loop_done)
  with a b show "split_file_for_download fs filename max_size_mb = (Inr [], fs)"
    by (simp add: split_file_for_download_def exists_def getsize_def)
qed

theorem split_empty_file_witness:
  "split_file_for_download empty_fs ''empty.txt'' 20 =
     (Inr [\<lparr>info_name = ''empty.txt'', info_size = ''0.00 B'',
            info_url = ''/download/empty.txt''\<rparr>], empty_fs)
   \<and> split_file_for_download empty_fs ''empty.txt'' (- 1) = (Inr [], empty_fs)"
  using split_empty_file [of empty_fs "''empty.txt''" "\<lparr>content = [], readable = True\<rparr>" 20]
    split_empty_file [of empty_fs "''empty.txt''" "\<lparr>content = [], readable = True\<rparr>" "- 1"]
  by (simp add: empty_fs_def write_file_def)

theorem split_empty_file_counterexample:
  "fst (split_file_for_download empty_fs ''empty.txt'' 20) =
     Inr [\<lparr>info_name = ''empty.txt'', info_size = ''0.00 B'',
           info_url = ''/download/empty.txt''\<rparr>]"
  by (simp add: split_file_for_download_def exists_def getsize_def format_file_size_0
      empty_fs_def write_file_def)

section \<open>Properties of the artifact writer\<close>

lemma proper_lines_terminated:
  "\<forall>l \<in> set ls. terminated l \<Longrightarrow> proper_lines ls"
  by (induction ls) (auto simp: proper_lines_Cons)

lemma length_concat_numbers:
  "int (length (concat (map (\<lambda>number. number @ [LF]) numbers)))
     = (\<Sum>number\<leftarrow>numbers. int (length number) + 1)"
  by (induction numbers) simp_all

text \<open>
  C6. \<open>generate_to_file\<close> writes the identifiers one per line, each followed by one
  newline, in the order given (for identifiers without line breaks, and a file below
  \<open>2^53\<close> bytes), touches no other file, and returns the file name, the size of the
  written file in bytes and that size formatted for display; it returns no line count.
\<close>

theorem generate_to_file_lines:
  assumes "\<forall>number \<in> set numbers. LF \<notin> set number \<and> CR \<notin> set number"
    and "(\<Sum>number\<leftarrow>numbers. int (length number) + 1) < 2 ^ 53"
  shows "\<exists>fs'. generate_to_file fs numbers filename =
           (Inr (filename, getsize fs' filename, spec_format (getsize fs' filename)), fs')
    \<and> fs' filename =
         Some \<lparr>content = concat (map (\<lambda>number. number @ [LF]) numbers), readable = True\<rparr>
    \<and> file_lines (content (the (fs' filename))) = map (\<lambda>number. number @ [LF]) numbers
    \<and> getsize fs' filename = (\<Sum>number\<leftarrow>numbers. int (length number) + 1)
    \<and> (\<forall>other. other \<noteq> filename \<longrightarrow> fs' other = fs other)"
proof -
  let ?text = "concat (map (\<lambda>number. number @ [LF]) numbers)"
  let ?fs' = "write_file fs filename ?text"
  have g: "getsize ?fs' filename = (\<Sum>number\<leftarrow>numbers. int (length number) + 1)"
    by (simp add: getsize_def write_file_def length_concat_numbers del: length_concat)
  with assms(2) have "format_file_size (getsize ?fs' filename)
      = Inr (spec_format (getsize ?fs' filename))"
    by (intro format_file_size_exact) (simp_all add: getsize_def)
  then have r: "generate_to_file fs numbers filename =
      (Inr (filename, getsize ?fs' filename, spec_format (getsize ?fs' filename)), ?fs')"
    by (simp add: generate_to_file_def Let_def)
  have "\<forall>l \<in> set (map (\<lambda>number. number @ [LF]) numbers). terminated l"
    using assms(1) by (auto simp: terminated_def)
  then have "file_lines ?text = map (\<lambda>number. number @ [LF]) numbers"
    by (intro file_lines_concat proper_lines_terminated)
  then have l: "file_lines (content (the (?fs' filename))) = map (\<lambda>number. number @ [LF]) numbers"
    by (simp add: write_file_def)
  have "?fs' filename = Some \<lparr>content = ?text, readable = True\<rparr>"
    "\<forall>other. other \<noteq> filename \<longrightarrow> ?fs' other = fs other"
    by (simp_all add: write_file_def)
  with r l g show ?thesis by blast
qed

lemma example_numbers_hyps:
  "\<forall>number \<in> set example_numbers. LF \<notin> set number \<and> CR \<notin> set number"
  "(\<Sum>number\<leftarrow>example_numbers. int (length number) + 1) < 2 ^ 53"
  by (simp_all add: example_numbers_def LF_def CR_def)

theorem generate_to_file_lines_witness:
  "\<exists>fs'. generate_to_file Map.empty example_numbers ''out.txt'' =
           (Inr (''out.txt'', 24, ''24.00 B''), fs')
    \<and> fs' ''out.txt'' =
         Some \<lparr>content = ''13800130000'' @ [LF] @ ''13800130001'' @ [LF], readable = True\<rparr>
    \<and> file_lines (content (the (fs' ''out.txt''))) =
         [''13800130000'' @ [LF], ''13800130001'' @ [LF]]"
proof -
  have s: "spec_format 24 = ''24.00 B''" by code_simp
  from generate_to_file_lines [OF example_numbers_hyps, of Map.empty "''out.txt''"]
  obtain fs' where
    "generate_to_file Map.empty example_numbers ''out.txt'' =
           (Inr (''out.txt'', getsize fs' ''out.txt'', spec_format (getsize fs' ''out.txt'')), fs')"
    "fs' ''out.txt'' =
         Some \<lparr>content = concat (map (\<lambda>number. number @ [LF]) example_numbers), readable = True\<rparr>"
    "file_lines (content (the (fs' ''out.txt''))) = map (\<lambda>number. number @ [LF]) example_numbers"
    "getsize fs' ''out.txt'' = (\<Sum>number\<leftarrow>example_numbers. int (length number) + 1)"
    by blast
  then show ?thesis
    by (intro exI [of _ fs']) (simp add: example_numbers_def s)
qed

theorem generate_to_file_counterexample:
  "fst (generate_to_file Map.empty [''13800130000'', ''13800130001''] ''out.txt'')
     = Inr (''out.txt'', 24, ''24.00 B'')
   \<and> int (length [''13800130000'', ''13800130001'']) \<noteq> 24"
proof -
  have "format_file_size 24 = Inr ''24.00 B''" by code_simp
  then show ?thesis
    by (simp add: generate_to_file_def getsize_def write_file_def)
qed

section \<open>Properties of the generation request\<close>

lemma api_generate_valid:
  assumes "fst (validate_input data)"
  shows "api_generate cfg db timestamp fs data =
     (let numbers = request_numbers db data in
      if numbers = [] then (Response 404 No_numbers_found, fs)
      else if int (length numbers) > max_count cfg
        then (Response 400 (Over_limit (max_count cfg)), fs)
      else
        let suffix = (if extract_suffix (req_suffix_4 data) \<noteq> []
                      then extract_suffix (req_suffix_4 data)
                      else if extract_suffix (req_suffix_3 data) \<noteq> []
                      then extract_suffix (req_suffix_3 data) else ''ALL'');
            filename = generate_filename (strip (req_prefix data)) (strip (req_province data))
                         (strip (req_city data)) suffix timestamp
        in
        case generate_to_file fs numbers filename of
          (Inl e, fs') \<Rightarrow> (Response 500 (Generation_failed e), fs')
        | (Inr (actual_filename, file_size, file_size_str), fs') \<Rightarrow>
            let file_size_bytes = getsize fs' actual_filename in
            if file_size_bytes > file_size_limit cfg * 1024 * 1024 then
              (case split_file_for_download fs' actual_filename 20 of
                 (Inl e, fs'') \<Rightarrow> (Response 500 (Generation_failed e), fs'')
               | (Inr files, fs'') \<Rightarrow>
                   (Response 200 (Generated (int (length numbers)) files), fs''))
            else
              (Response 200
                 (Generated (int (length numbers))
                    [\<lparr>info_name = actual_filename, info_size = file_size_str,
                      info_url = ''/download/'' @ actual_filename\<rparr>]),
               fs'))"
proof -
  obtain msg where "validate_input data = (True, msg)"
    using assms by (cases "validate_input data") auto
  then show ?thesis
    by (simp add: api_generate_def Let_def)
qed

text \<open>
  C3. For a request that passes validation, under a maximum count that is not negative:
  when the number of identifiers after the removal of duplicates exceeds the maximum,
  \<open>api_generate\<close> answers with status 400 and the over-limit message, and the download
  directory is unchanged (no file is written). The count tested is the one after the
  removal of duplicates: when it does not exceed the maximum, the answer is never the
  over-limit one.
\<close>

theorem api_generate_over_capacity:
  "(fst (validate_input data) \<and> 0 \<le> max_count cfg
      \<and> int (length (request_numbers db data)) > max_count cfg
    \<longrightarrow> api_generate cfg db timestamp fs data = (Response 400 (Over_limit (max_count cfg)), fs))
   \<and> (fst (validate_input data) \<and> int (length (request_numbers db data)) \<le> max_count cfg
    \<longrightarrow> (\<forall>n. fst (api_generate cfg db timestamp fs data) \<noteq> Response 400 (Over_limit n)))"
proof (intro conjI impI)
  assume a: "fst (validate_input data) \<and> 0 \<le> max_count cfg
      \<and> int (length (request_numbers db data)) > max_count cfg"
  then have "request_numbers db data \<noteq> []" by auto
  with a show "api_generate cfg db timestamp fs data
      = (Response 400 (Over_limit (max_count cfg)), fs)"
    by (simp add: api_generate_valid Let_def)
next
  assume a: "fst (validate_input data) \<and> int (length (request_numbers db data)) \<le> max_count cfg"
  then show "\<forall>n. fst (api_generate cfg db timestamp fs data) \<noteq> Response 400 (Over_limit n)"
    by (simp add: api_generate_valid Let_def split: prod.splits sum.splits)
qed

lemma example_request_valid: "validate_input example_request = (True, No_message)"
  by (simp add: validate_input_def example_request_def strip_def is_space_char_def isdigit_def
      is_digit_char_def truthy_def Let_def)

lemma example_request_numbers: "request_numbers example_db example_request = [''13800131234'']"
  by (simp add: request_numbers_def example_request_def example_db_def generate_numbers_def
      query_phone_locations_def generate_numbers_for_location_def extract_suffix_def or_none_def
      strip_def is_space_char_def truthy_def Let_def)

lemma example_request_before_dedup:
  "concat (map (\<lambda>location.
       generate_numbers_for_location ''138'' (loc_suffix location) (Some ''1234'') None)
     (query_phone_locations example_db ''138'' ''P'' ''C'' None))
   = [''13800131234'', ''13800131234'']"
  by (simp add: example_db_def query_phone_locations_def generate_numbers_for_location_def
      truthy_def)

theorem api_generate_over_capacity_witness:
  "fst (validate_input example_request)
   \<and> length (concat (map (\<lambda>location.
          generate_numbers_for_location ''138'' (loc_suffix location) (Some ''1234'') None)
        (query_phone_locations example_db ''138'' ''P'' ''C'' None))) = 2
   \<and> length (request_numbers example_db example_request) = 1
   \<and> api_generate \<lparr>max_count = 0, file_size_limit = 20\<rparr> example_db ''20260101_120000''
        Map.empty example_request
      = (Response 400 (Over_limit 0), Map.empty)
   \<and> fst (api_generate \<lparr>max_count = 1, file_size_limit = 20\<rparr> example_db ''20260101_120000''
        Map.empty example_request)
      \<noteq> Response 400 (Over_limit 1)"
proof -
  have v: "fst (validate_input example_request)" by (simp add: example_request_valid)
  have n: "length (request_numbers example_db example_request) = 1"
    by (simp add: example_request_numbers)
  from api_generate_over_capacity [of example_request "\<lparr>max_count = 0, file_size_limit = 20\<rparr>"
      example_db "''20260101_120000''" Map.empty] v n
  have 1: "api_generate \<lparr>max_count = 0, file_size_limit = 20\<rparr> example_db ''20260101_120000''
        Map.empty example_request = (Response 400 (Over_limit 0), Map.empty)"
    by simp
  from api_generate_over_capacity [of example_request "\<lparr>max_count = 1, file_size_limit = 20\<rparr>"
      example_db "''20260101_120000''" Map.empty] v n
  have 2: "fst (api_generate \<lparr>max_count = 1, file_size_limit = 20\<rparr> example_db ''20260101_120000''
        Map.empty example_request) \<noteq> Response 400 (Over_limit 1)"
    by simp
  from v n 1 2 show ?thesis by (simp add: example_request_before_dedup)
qed

end
